theory Spec2Isabelle
  imports Complex_Main
begin

section \<open>Errors\<close>

text \<open>
  The exceptions the two modules can raise: \<open>ValueError\<close> is raised by
  \<open>concatenate_with_crossfade\<close> on an empty segment list (the spec's
  \<open>EmptyInputError\<close>); \<open>IndexError\<close> is what \<open>speaker.lower().split()[0]\<close>
  raises when \<open>split()\<close> returns no token; \<open>OverflowError\<close> is what the true
  division of two ints raises when the quotient is too large for a float.
\<close>

datatype py_error = ValueError string | IndexError | OverflowError

section \<open>audio\_processor\_module.py\<close>

text \<open>
  A waveform is a one-dimensional array of samples. Samples are modelled as exact
  reals: the embedding describes the arithmetic the float computation approximates.
\<close>

type_synonym waveform = "real list"

text \<open>
  \<open>int(self.sample_rate * crossfade_duration_ms / 1000)\<close>. The product of two Python
  ints is exact. The true division \<open>/\<close> of two ints returns the float nearest to the
  exact quotient (binary64: 53 significant bits, ties to the even significand) and
  raises OverflowError when that float would be \<open>2 ^ 1024\<close> or more. \<open>int\<close> of a
  float truncates towards zero.

  The float of a positive quotient is held as a pair \<open>(m, s)\<close> of integers that
  stands for \<open>m * 2 ^ s\<close>. The divisor is 1000, so a quotient that is not zero is at
  least 1/1000 and never falls in the subnormal range.
\<close>

text \<open>\<open>n.bit_length()\<close>: the number of binary digits of \<open>n\<close>.\<close>

fun bit_length :: "nat \<Rightarrow> nat" where
  "bit_length n = (if n = 0 then 0 else Suc (bit_length (n div 2)))"

declare bit_length.simps [simp del]

text \<open>The integer nearest to \<open>a / b\<close> for \<open>0 \<le> a\<close> and \<open>0 < b\<close>, a tie going to the even one.\<close>

definition round_half_even :: "int \<Rightarrow> int \<Rightarrow> int" where
  "round_half_even a b =
     (let q = a div b; r = a mod b
      in if 2 * r < b then q
         else if b < 2 * r then q + 1
         else if even q then q
         else q + 1)"

text \<open>
  The binary exponent \<open>e\<close> of \<open>n / 1000\<close> for \<open>0 < n\<close>, that is
  \<open>2 ^ e \<le> n / 1000 < 2 ^ (e + 1)\<close>: as 1000 has ten binary digits, \<open>e\<close> is the
  number of digits of \<open>n\<close> less 10 or less 11.
\<close>

definition quotient_exponent :: "nat \<Rightarrow> int" where
  "quotient_exponent n =
     (let e = int (bit_length n) - 10
      in if (if 0 \<le> e then 1000 * 2 ^ nat e \<le> int n else 1000 \<le> int n * 2 ^ nat (- e))
         then e else e - 1)"

text \<open>
  The float nearest to \<open>n / 1000\<close> for \<open>0 < n\<close>: the unit in the last place is
  \<open>2 ^ s\<close> with \<open>s = e - 52\<close>, and the significand is \<open>n / 1000 / 2 ^ s\<close> rounded.
\<close>

definition float_div_1000 :: "nat \<Rightarrow> int \<times> int" where
  "float_div_1000 n =
     (let s = quotient_exponent n - 52
      in (if 0 \<le> s then round_half_even (int n) (1000 * 2 ^ nat s)
          else round_half_even (int n * 2 ^ nat (- s)) 1000,
          s))"

text \<open>The float \<open>m * 2 ^ s\<close> is \<open>2 ^ 1024\<close> or more.\<close>

definition float_overflows :: "int \<times> int \<Rightarrow> bool" where
  "float_overflows x = (case x of (m, s) \<Rightarrow> 2 ^ 1024 * 2 ^ nat (- s) \<le> m * 2 ^ nat s)"

text \<open>\<open>int(x)\<close> for the float \<open>x = m * 2 ^ s\<close>, which is not negative.\<close>

definition float_to_int :: "int \<times> int \<Rightarrow> int" where
  "float_to_int x =
     (case x of (m, s) \<Rightarrow> if 0 \<le> s then m * 2 ^ nat s else m div 2 ^ nat (- s))"

definition crossfade_samples :: "int \<Rightarrow> int \<Rightarrow> py_error + int" where
  "crossfade_samples sample_rate crossfade_duration_ms =
     (let p = sample_rate * crossfade_duration_ms
      in if p = 0 then Inr 0
         else
           (let x = float_div_1000 (nat \<bar>p\<bar>)
            in if float_overflows x then Inl OverflowError
               else Inr (sgn p * float_to_int x)))"

text \<open>
  \<open>np.linspace(start, stop, num)\<close> with the endpoint included: \<open>num\<close> evenly spaced
  values; a single value is \<open>start\<close>.
\<close>

definition linspace :: "real \<Rightarrow> real \<Rightarrow> nat \<Rightarrow> real list" where
  "linspace start stop num =
     (if num = 1 then [start]
      else map (\<lambda>i. start + real i * ((stop - start) / real (num - 1))) [0..<num])"

text \<open>
  One iteration of the loop body of \<open>concatenate_with_crossfade\<close>.
  \<open>result[-n:]\<close> is \<open>drop (length result - n) result\<close>, \<open>result[:-n]\<close> is
  \<open>take (length result - n) result\<close>, \<open>current[:n]\<close> is \<open>take n current\<close> and
  \<open>current[n:]\<close> is \<open>drop n current\<close>; products and sums of arrays are elementwise.
\<close>

definition crossfade_step :: "int \<Rightarrow> waveform \<Rightarrow> waveform \<Rightarrow> waveform" where
  "crossfade_step crossfade_n result current =
     (if crossfade_n > 0 \<and> int (length result) \<ge> crossfade_n then
        (let n = nat crossfade_n;
             fade_out = linspace 1 0 n;
             fade_in = linspace 0 1 n;
             tail = map2 (*) (drop (length result - n) result) fade_out
         in if int (length current) \<ge> crossfade_n then
              (let head = map2 (*) (take n current) fade_in;
                   crossfaded = map2 (+) tail head
               in take (length result - n) result @ crossfaded @ drop n current)
            else result @ current)
      else result @ current)"

definition concatenate_with_crossfade ::
    "int \<Rightarrow> waveform list \<Rightarrow> int \<Rightarrow> py_error + waveform" where
  "concatenate_with_crossfade sample_rate audio_segments crossfade_duration_ms =
     (case audio_segments of
        [] \<Rightarrow> Inl (ValueError ''No audio segments to concatenate'')
      | [s] \<Rightarrow> Inr s
      | s # rest \<Rightarrow>
          (case crossfade_samples sample_rate crossfade_duration_ms of
             Inl e \<Rightarrow> Inl e
           | Inr crossfade_n \<Rightarrow> Inr (foldl (crossfade_step crossfade_n) s rest)))"

section \<open>Strings\<close>

text \<open>
  Script text is a list of characters. The embedding of the string operations is
  exact for ASCII text: a character above 127 is treated as a caseless character
  that is not whitespace. Whitespace is what \<open>str.isspace\<close>, \<open>str.strip\<close>,
  \<open>str.split\<close> and the pattern \<open>\s\<close> accept in the ASCII range: codes 9 to 13,
  28 to 31 and the space.
\<close>

definition newline :: char where
  "newline = CHR 0x0A"

definition whitespace_chars :: string where
  "whitespace_chars =
     [CHR 0x09, CHR 0x0A, CHR 0x0B, CHR 0x0C, CHR 0x0D,
      CHR 0x1C, CHR 0x1D, CHR 0x1E, CHR 0x1F, CHR '' '']"

definition is_space :: "char \<Rightarrow> bool" where
  "is_space c = (c \<in> set whitespace_chars)"

definition upper_chars :: string where
  "upper_chars = ''ABCDEFGHIJKLMNOPQRSTUVWXYZ''"

definition lower_chars :: string where
  "lower_chars = ''abcdefghijklmnopqrstuvwxyz''"

definition to_upper :: "char \<Rightarrow> char" where
  "to_upper c = (case map_of (zip lower_chars upper_chars) c of Some u \<Rightarrow> u | None \<Rightarrow> c)"

definition to_lower :: "char \<Rightarrow> char" where
  "to_lower c = (case map_of (zip upper_chars lower_chars) c of Some l \<Rightarrow> l | None \<Rightarrow> c)"

text \<open>\<open>s.upper()\<close> and \<open>s.lower()\<close>.\<close>

definition str_upper :: "string \<Rightarrow> string" where
  "str_upper s = map to_upper s"

definition str_lower :: "string \<Rightarrow> string" where
  "str_lower s = map to_lower s"

text \<open>\<open>s.strip()\<close>: leading and trailing whitespace removed.\<close>

definition str_strip :: "string \<Rightarrow> string" where
  "str_strip s = rev (dropWhile is_space (rev (dropWhile is_space s)))"

text \<open>
  \<open>s.split()\<close>: the maximal runs of characters that are not whitespace, in order.
  The first argument is the token being read.
\<close>

fun split_ws :: "string \<Rightarrow> string \<Rightarrow> string list" where
  "split_ws tok [] = (if tok = [] then [] else [tok])"
| "split_ws tok (c # cs) =
     (if is_space c then (if tok = [] then split_ws [] cs else tok # split_ws [] cs)
      else split_ws (tok @ [c]) cs)"

definition str_split :: "string \<Rightarrow> string list" where
  "str_split s = split_ws [] s"

text \<open>\<open>s.split('\n')\<close>: the pieces between newlines, empty pieces kept.\<close>

fun split_nl :: "string \<Rightarrow> string \<Rightarrow> string list" where
  "split_nl piece [] = [piece]"
| "split_nl piece (c # cs) =
     (if c = newline then piece # split_nl [] cs else split_nl (piece @ [c]) cs)"

definition split_lines :: "string \<Rightarrow> string list" where
  "split_lines s = split_nl [] s"

text \<open>\<open>' '.join(xs)\<close>.\<close>

fun join_space :: "string list \<Rightarrow> string" where
  "join_space [] = []"
| "join_space [x] = x"
| "join_space (x # y # ys) = x @ '' '' @ join_space (y # ys)"

text \<open>\<open>sub in s\<close> for strings: \<open>sub\<close> occurs in \<open>s\<close> as a contiguous substring.\<close>

fun str_contains :: "string \<Rightarrow> string \<Rightarrow> bool" where
  "str_contains sub [] = (sub = [])"
| "str_contains sub (c # cs) = (take (length sub) (c # cs) = sub \<or> str_contains sub cs)"

text \<open>\<open>s.startswith(p)\<close>.\<close>

definition startswith :: "string \<Rightarrow> string \<Rightarrow> bool" where
  "startswith s p = (take (length p) s = p)"

section \<open>Regular expressions\<close>

text \<open>
  The patterns of the parser are matched by \<open>re.match\<close>, a backtracking matcher
  anchored at the start of the line. Each construct the patterns use is a function
  from the rest of the input to an optional result that takes its continuation (the
  rest of the pattern) as an argument; a quantifier tries its alternatives in the
  matcher's order and returns the first success.
\<close>

type_synonym 'a matcher = "string \<Rightarrow> 'a option"

text \<open>One character of a class; the continuation receives the character.\<close>

definition one_of :: "(char \<Rightarrow> bool) \<Rightarrow> (char \<Rightarrow> 'a matcher) \<Rightarrow> 'a matcher" where
  "one_of P k s = (case s of [] \<Rightarrow> None | c # cs \<Rightarrow> if P c then k c cs else None)"

text \<open>A literal character.\<close>

definition lit :: "char \<Rightarrow> 'a matcher \<Rightarrow> 'a matcher" where
  "lit x k s = (case s of [] \<Rightarrow> None | c # cs \<Rightarrow> if c = x then k cs else None)"

text \<open>
  \<open>X*?\<close> (lazy): the continuation is tried first, and one more character of the class
  is taken only when it fails. \<open>acc\<close> is the text captured so far.
\<close>

fun lazy_more :: "(char \<Rightarrow> bool) \<Rightarrow> (string \<Rightarrow> 'a matcher) \<Rightarrow> string \<Rightarrow> 'a matcher" where
  "lazy_more P k acc [] = k acc []"
| "lazy_more P k acc (c # cs) =
     (case k acc (c # cs) of
        Some r \<Rightarrow> Some r
      | None \<Rightarrow> if P c then lazy_more P k (acc @ [c]) cs else None)"

text \<open>
  \<open>X*\<close> (greedy): as many characters of the class as possible are taken first, and
  one is given back each time the continuation fails.
\<close>

fun greedy_more :: "(char \<Rightarrow> bool) \<Rightarrow> (string \<Rightarrow> 'a matcher) \<Rightarrow> string \<Rightarrow> 'a matcher" where
  "greedy_more P k acc [] = k acc []"
| "greedy_more P k acc (c # cs) =
     (if P c then
        (case greedy_more P k (acc @ [c]) cs of
           Some r \<Rightarrow> Some r
         | None \<Rightarrow> k acc (c # cs))
      else k acc (c # cs))"

text \<open>
  \<open>$\<close> without the MULTILINE flag: the end of the string, or just before a newline
  that ends the string.
\<close>

definition eol :: "'a \<Rightarrow> 'a matcher" where
  "eol r s = (if s = [] \<or> s = [newline] then Some r else None)"

text \<open>\<open>[A-Z]\<close>, \<open>[A-Z\s\'\-\.]\<close> and \<open>.\<close> (any character but a newline).\<close>

definition is_AZ :: "char \<Rightarrow> bool" where
  "is_AZ c = (c \<in> set upper_chars)"

definition name_char :: "char \<Rightarrow> bool" where
  "name_char c = (is_AZ c \<or> is_space c \<or> c = CHR 0x27 \<or> c = CHR ''-'' \<or> c = CHR ''.'')"

definition dot :: "char \<Rightarrow> bool" where
  "dot c = (c \<noteq> newline)"

text \<open>
  \<open>\s*(.+)$\<close>, the tail shared by patterns 1, 2 and 4; \<open>g1\<close> is the text of group 1
  and the result is the pair of both groups.
\<close>

definition dialogue_tail :: "string \<Rightarrow> (string \<times> string) matcher" where
  "dialogue_tail g1 =
     greedy_more is_space
       (\<lambda>_. one_of dot (\<lambda>d. greedy_more dot (\<lambda>g2. eol (g1, g2)) [d])) []"

text \<open>
  \<open>([A-Z][A-Z\s\'\-\.]+?)\<close>, group 1 of patterns 1, 2 and 4, followed by the rest
  of the pattern.
\<close>

definition name_lazy :: "(string \<Rightarrow> 'a matcher) \<Rightarrow> 'a matcher" where
  "name_lazy k = one_of is_AZ (\<lambda>c0. one_of name_char (\<lambda>c1. lazy_more name_char k [c0, c1]))"

text \<open>Pattern 1: \<open>^([A-Z][A-Z\s\'\-\.]+?):\s*(.+)$\<close>\<close>

definition pattern1 :: "(string \<times> string) matcher" where
  "pattern1 = name_lazy (\<lambda>g1. lit CHR '':'' (dialogue_tail g1))"

text \<open>Pattern 2: \<open>^[\[\(]([A-Z][A-Z\s\'\-\.]+?)[\]\)]\s*(.+)$\<close>\<close>

definition pattern2 :: "(string \<times> string) matcher" where
  "pattern2 =
     one_of (\<lambda>c. c = CHR ''['' \<or> c = CHR ''('')
       (\<lambda>_. name_lazy
          (\<lambda>g1. one_of (\<lambda>c. c = CHR '']'' \<or> c = CHR '')'') (\<lambda>_. dialogue_tail g1)))"

text \<open>Pattern 3: \<open>^([A-Z][A-Z\s\'\-\.]{2,})$\<close>\<close>

definition pattern3 :: "string matcher" where
  "pattern3 =
     one_of is_AZ (\<lambda>c0. one_of name_char (\<lambda>c1. one_of name_char
       (\<lambda>c2. greedy_more name_char (\<lambda>g1. eol g1) [c0, c1, c2])))"

text \<open>Pattern 4: \<open>^\*\*([A-Z][A-Z\s\'\-\.]+?)\*\*\s*(.+)$\<close>\<close>

definition pattern4 :: "(string \<times> string) matcher" where
  "pattern4 =
     lit CHR ''*'' (lit CHR ''*''
       (name_lazy (\<lambda>g1. lit CHR ''*'' (lit CHR ''*'' (dialogue_tail g1)))))"

text \<open>The parenthetical of \<open>_is_scene_direction\<close>: \<open>^\(.+\)$\<close>\<close>

definition parenthetical :: "unit matcher" where
  "parenthetical =
     lit CHR ''('' (one_of dot (\<lambda>d. greedy_more dot (\<lambda>_. lit CHR '')'' (eol ())) [d]))"

section \<open>script\_parser\_module.py\<close>

subsection \<open>The tables of \<open>ScriptParser.__init__\<close>\<close>

text \<open>
  \<open>default_voices\<close> is read at the constant keys \<open>NARRATOR\<close> and \<open>DEFAULT\<close> only.
\<close>

definition default_voices_NARRATOR :: string where
  "default_voices_NARRATOR = ''af_heart''"

definition default_voices_MALE :: string where
  "default_voices_MALE = ''am_adam''"

definition default_voices_FEMALE :: string where
  "default_voices_FEMALE = ''af_bella''"

definition default_voices_DEFAULT :: string where
  "default_voices_DEFAULT = ''af_heart''"

definition male_names :: "string list" where
  "male_names =
     [''john'', ''mike'', ''david'', ''james'', ''robert'', ''michael'', ''william'',
      ''joseph'', ''thomas'', ''charles'', ''daniel'', ''paul'', ''mark'', ''george'',
      ''peter'', ''alex'', ''adam'', ''steve'', ''jack'', ''tom'', ''bob'', ''henry'',
      ''knox'', ''bernard'', ''mclain'', ''sims'']"

definition female_names :: "string list" where
  "female_names =
     [''sarah'', ''mary'', ''jennifer'', ''linda'', ''patricia'', ''barbara'',
      ''elizabeth'', ''susan'', ''jessica'', ''karen'', ''nancy'', ''lisa'',
      ''betty'', ''margaret'', ''sandra'', ''ashley'', ''emily'', ''donna'',
      ''bella'', ''emma'', ''sophia'', ''isabella'', ''shirley'']"

definition available_voices_male :: "string list" where
  "available_voices_male = [''am_adam'', ''am_michael'']"

definition available_voices_female :: "string list" where
  "available_voices_female = [''af_bella'', ''af_sarah'', ''af_heart'', ''af_sky'', ''af_nicole'']"

definition available_voices_neutral :: "string list" where
  "available_voices_neutral = [''af_heart'']"

definition scene_keywords :: "string list" where
  "scene_keywords =
     [''INT'', ''EXT'', ''FADE IN'', ''FADE OUT'', ''CUT TO'', ''DISSOLVE TO'',
      ''CONTINUED'', ''SCENE'', ''LOCATION'', ''NIGHT'', ''DAY'', ''MORNING'',
      ''EVENING'', ''LATER'', ''MEANWHILE'', ''FLASHBACK'', ''MONTAGE'']"

subsection \<open>\<open>_detect_speaker\<close>\<close>

text \<open>
  The result is the pair (speaker, dialogue) of the returned dict. The four patterns
  are tried in the source's order; a match of pattern 1 or 3 whose speaker is a scene
  keyword falls through to the next pattern.
\<close>

definition try_pattern4 :: "string \<Rightarrow> (string \<times> string) option" where
  "try_pattern4 line =
     (case pattern4 line of
        Some (g1, g2) \<Rightarrow> Some (str_strip g1, str_strip g2)
      | None \<Rightarrow> None)"

definition try_pattern3 :: "string \<Rightarrow> (string \<times> string) option" where
  "try_pattern3 line =
     (case pattern3 line of
        Some g1 \<Rightarrow>
          (let speaker = str_strip g1
           in if str_upper speaker \<notin> set scene_keywords then Some (speaker, [])
              else try_pattern4 line)
      | None \<Rightarrow> try_pattern4 line)"

definition try_pattern2 :: "string \<Rightarrow> (string \<times> string) option" where
  "try_pattern2 line =
     (case pattern2 line of
        Some (g1, g2) \<Rightarrow> Some (str_strip g1, str_strip g2)
      | None \<Rightarrow> try_pattern3 line)"

definition detect_speaker :: "string \<Rightarrow> (string \<times> string) option" where
  "detect_speaker line =
     (case pattern1 line of
        Some (g1, g2) \<Rightarrow>
          (let speaker = str_strip g1; dialogue = str_strip g2
           in if str_upper speaker \<notin> set scene_keywords then Some (speaker, dialogue)
              else try_pattern2 line)
      | None \<Rightarrow> try_pattern2 line)"

subsection \<open>\<open>_get_voice_for_speaker\<close>\<close>

text \<open>
  A voice map is the list of the dict's items in iteration order.
  \<open>speaker.lower().split()[0]\<close> raises IndexError when the speaker has no token.
\<close>

type_synonym voice_map = "(string \<times> string) list"

definition get_voice_for_speaker :: "string \<Rightarrow> voice_map \<Rightarrow> py_error + string" where
  "get_voice_for_speaker speaker voice_mappings =
     (let speaker_upper = str_upper speaker
      in case map_of voice_mappings speaker_upper of
           Some voice \<Rightarrow> Inr voice
         | None \<Rightarrow>
             (case find (\<lambda>(key, voice). str_upper key = speaker_upper) voice_mappings of
                Some (key, voice) \<Rightarrow> Inr voice
              | None \<Rightarrow>
                  (case str_split (str_lower speaker) of
                     [] \<Rightarrow> Inl IndexError
                   | speaker_lower # _ \<Rightarrow>
                       if speaker_lower \<in> set male_names then Inr (available_voices_male ! 0)
                       else if speaker_lower \<in> set female_names
                         then Inr (available_voices_female ! 0)
                       else if str_contains ''narr'' speaker_lower
                               \<or> speaker_upper = ''NARRATOR''
                         then Inr default_voices_NARRATOR
                       else Inr default_voices_DEFAULT)))"

subsection \<open>\<open>_is_scene_direction\<close>\<close>

definition is_scene_direction :: "string \<Rightarrow> bool" where
  "is_scene_direction line =
     (let line_upper = str_upper line
      in if \<exists>keyword \<in> set scene_keywords. startswith line_upper keyword then True
         else if parenthetical line \<noteq> None then True
         else False)"

subsection \<open>\<open>parse_script\<close>\<close>

text \<open>The local variables of \<open>parse_script\<close> that the loop updates.\<close>

record parser_state =
  segments :: "(string \<times> string) list"
  current_speaker :: "string option"
  current_text :: "string list"

text \<open>Truth value of \<open>current_speaker\<close>: neither \<open>None\<close> nor the empty string.\<close>

definition speaker_set :: "string option \<Rightarrow> bool" where
  "speaker_set sp = (case sp of None \<Rightarrow> False | Some s \<Rightarrow> s \<noteq> [])"

text \<open>
  \<open>if current_speaker and current_text:\<close> append the segment. The loop also clears
  \<open>current_text\<close> there; after the loop the variable is dead.
\<close>

definition flush :: "voice_map \<Rightarrow> parser_state \<Rightarrow> py_error + parser_state" where
  "flush voice_mappings st =
     (case current_speaker st of
        Some speaker \<Rightarrow>
          if speaker \<noteq> [] \<and> current_text st \<noteq> [] then
            (let text = join_space (current_text st)
             in case get_voice_for_speaker speaker voice_mappings of
                  Inl e \<Rightarrow> Inl e
                | Inr voice \<Rightarrow>
                    Inr (st\<lparr>segments := segments st @ [(voice, text)], current_text := []\<rparr>))
          else Inr st
      | None \<Rightarrow> Inr st)"

text \<open>The body of the loop over the lines.\<close>

definition parse_line :: "voice_map \<Rightarrow> string \<Rightarrow> parser_state \<Rightarrow> py_error + parser_state" where
  "parse_line voice_mappings raw_line st =
     (let line = str_strip raw_line
      in if line = [] then Inr st
         else
           (case detect_speaker line of
              Some (speaker, dialogue) \<Rightarrow>
                (case flush voice_mappings st of
                   Inl e \<Rightarrow> Inl e
                 | Inr st1 \<Rightarrow>
                     Inr (st1\<lparr>current_speaker := Some speaker,
                              current_text :=
                                (if dialogue \<noteq> [] then current_text st1 @ [dialogue]
                                 else current_text st1)\<rparr>))
            | None \<Rightarrow>
                if speaker_set (current_speaker st)
                  then Inr (st\<lparr>current_text := current_text st @ [line]\<rparr>)
                else if \<not> is_scene_direction line
                  then Inr (st\<lparr>current_speaker := Some ''NARRATOR'',
                                current_text := current_text st @ [line]\<rparr>)
                else Inr st))"

fun parse_loop :: "voice_map \<Rightarrow> string list \<Rightarrow> parser_state \<Rightarrow> py_error + parser_state" where
  "parse_loop voice_mappings [] st = Inr st"
| "parse_loop voice_mappings (line # lines) st =
     (case parse_line voice_mappings line st of
        Inl e \<Rightarrow> Inl e
      | Inr st' \<Rightarrow> parse_loop voice_mappings lines st')"

definition initial_state :: parser_state where
  "initial_state = \<lparr>segments = [], current_speaker = None, current_text = []\<rparr>"

text \<open>The loop and the final flush, on the lines of the script.\<close>

definition parse_lines :: "string list \<Rightarrow> voice_map \<Rightarrow> py_error + (string \<times> string) list" where
  "parse_lines lines voice_mappings =
     (case parse_loop voice_mappings lines initial_state of
        Inl e \<Rightarrow> Inl e
      | Inr st \<Rightarrow>
          (case flush voice_mappings st of
             Inl e \<Rightarrow> Inl e
           | Inr st' \<Rightarrow> Inr (segments st')))"

text \<open>\<open>voice_mappings\<close> is optional: \<open>None\<close> stands for the empty dict.\<close>

definition parse_script ::
    "string \<Rightarrow> voice_map option \<Rightarrow> py_error + (string \<times> string) list" where
  "parse_script script_text voice_mappings =
     parse_lines (split_lines script_text)
       (case voice_mappings of None \<Rightarrow> [] | Some m \<Rightarrow> m)"

subsection \<open>\<open>detect_characters\<close>\<close>

text \<open>
  A \<open>Counter\<close> is the list of its items in insertion order; \<open>counts[k] += 1\<close> adds one
  to the entry of \<open>k\<close>, or appends a new entry with count 1.
\<close>

fun counter_incr :: "string \<Rightarrow> (string \<times> nat) list \<Rightarrow> (string \<times> nat) list" where
  "counter_incr k [] = [(k, 1)]"
| "counter_incr k ((k', n) # rest) =
     (if k' = k then (k', n + 1) # rest else (k', n) # counter_incr k rest)"

definition count_line :: "(string \<times> nat) list \<Rightarrow> string \<Rightarrow> (string \<times> nat) list" where
  "count_line character_counts line =
     (case detect_speaker line of
        Some (sp, dialogue) \<Rightarrow>
          (let speaker = str_upper sp
           in if speaker \<notin> set scene_keywords then counter_incr speaker character_counts
              else character_counts)
      | None \<Rightarrow> character_counts)"

definition detect_characters :: "string \<Rightarrow> (string \<times> nat) list" where
  "detect_characters script_text = foldl count_line [] (split_lines script_text)"

subsection \<open>\<open>suggest_voice_mappings\<close>\<close>

text \<open>\<open>d[k] = v\<close> on a dict held as the list of its items.\<close>

fun dict_set :: "string \<Rightarrow> string \<Rightarrow> voice_map \<Rightarrow> voice_map" where
  "dict_set k v [] = [(k, v)]"
| "dict_set k v ((k', v') # rest) =
     (if k' = k then (k', v) # rest else (k', v') # dict_set k v rest)"

record suggest_state =
  suggestions :: voice_map
  male_voice_idx :: nat
  female_voice_idx :: nat

definition suggest_step :: "suggest_state \<Rightarrow> string \<Rightarrow> py_error + suggest_state" where
  "suggest_step st character =
     (case str_split (str_lower character) of
        [] \<Rightarrow> Inl IndexError
      | char_lower # _ \<Rightarrow>
          if str_contains ''narr'' char_lower then
            Inr (st\<lparr>suggestions := dict_set character ''af_heart'' (suggestions st)\<rparr>)
          else if char_lower \<in> set male_names then
            (let voices = available_voices_male
             in Inr (st\<lparr>suggestions :=
                          dict_set character (voices ! (male_voice_idx st mod length voices))
                            (suggestions st),
                        male_voice_idx := male_voice_idx st + 1\<rparr>))
          else if char_lower \<in> set female_names then
            (let voices = available_voices_female
             in Inr (st\<lparr>suggestions :=
                          dict_set character (voices ! (female_voice_idx st mod length voices))
                            (suggestions st),
                        female_voice_idx := female_voice_idx st + 1\<rparr>))
          else if length (suggestions st) mod 2 = 0 then
            Inr (st\<lparr>suggestions := dict_set character ''am_adam'' (suggestions st)\<rparr>)
          else
            Inr (st\<lparr>suggestions := dict_set character ''af_bella'' (suggestions st)\<rparr>))"

fun suggest_loop :: "string list \<Rightarrow> suggest_state \<Rightarrow> py_error + suggest_state" where
  "suggest_loop [] st = Inr st"
| "suggest_loop (character # rest) st =
     (case suggest_step st character of
        Inl e \<Rightarrow> Inl e
      | Inr st' \<Rightarrow> suggest_loop rest st')"

definition suggest_voice_mappings :: "string \<Rightarrow> py_error + voice_map" where
  "suggest_voice_mappings script_text =
     (let characters = detect_characters script_text
      in case suggest_loop (map fst characters)
                \<lparr>suggestions = [], male_voice_idx = 0, female_voice_idx = 0\<rparr> of
           Inl e \<Rightarrow> Inl e
         | Inr st \<Rightarrow> Inr (suggestions st))"

section \<open>Invariants of the parser state\<close>

text \<open>
  Predicates used to state what the loop of \<open>parse_script\<close> maintains: the active
  speaker has a first token (so \<open>split()[0]\<close> cannot raise), no buffered or emitted
  text is empty, and every emitted voice comes from the voice map or is one of the
  three built-in voices.
\<close>

definition has_token :: "string \<Rightarrow> bool" where
  "has_token speaker = (str_split (str_lower speaker) \<noteq> [])"

definition speaker_ok :: "parser_state \<Rightarrow> bool" where
  "speaker_ok st = (case current_speaker st of None \<Rightarrow> True | Some speaker \<Rightarrow> has_token speaker)"

definition texts_nonempty :: "parser_state \<Rightarrow> bool" where
  "texts_nonempty st =
     (list_all (\<lambda>t. t \<noteq> []) (current_text st) \<and> list_all (\<lambda>(v, t). t \<noteq> []) (segments st))"

definition builtin_voices :: "string list" where
  "builtin_voices = [''am_adam'', ''af_bella'', ''af_heart'']"

definition voices_allowed :: "voice_map \<Rightarrow> (string \<times> string) list \<Rightarrow> bool" where
  "voices_allowed vm segs = list_all (\<lambda>(v, t). v \<in> snd ` set vm \<union> set builtin_voices) segs"

section \<open>Vocabulary of the parser's properties\<close>

text \<open>
  What a line does when no speaker is active: a speaker cue opens its speaker, with
  the inline dialogue (if any) as the first buffered text; any other line that is
  neither blank nor a scene direction opens \<open>NARRATOR\<close> with the line itself; a
  blank line or a scene direction opens nothing.
\<close>

definition line_opens :: "string \<Rightarrow> (string \<times> string list) option" where
  "line_opens raw_line =
     (let line = str_strip raw_line
      in case detect_speaker line of
           Some (speaker, dialogue) \<Rightarrow> Some (speaker, if dialogue \<noteq> [] then [dialogue] else [])
         | None \<Rightarrow>
             if line \<noteq> [] \<and> \<not> is_scene_direction line then Some (''NARRATOR'', [line])
             else None)"

text \<open>
  The first token of a character name in lower case (\<open>character.lower().split()[0]\<close>,
  empty when there is none), and the three tests \<open>suggest_voice_mappings\<close> makes on it.
\<close>

definition first_token :: "string \<Rightarrow> string" where
  "first_token character = (case str_split (str_lower character) of [] \<Rightarrow> [] | t # _ \<Rightarrow> t)"

definition narrator_named :: "string \<Rightarrow> bool" where
  "narrator_named character = str_contains ''narr'' (first_token character)"

definition male_named :: "string \<Rightarrow> bool" where
  "male_named character = (first_token character \<in> set male_names)"

definition female_named :: "string \<Rightarrow> bool" where
  "female_named character = (first_token character \<in> set female_names)"

text \<open>
  The voice suggested for the character at position \<open>j\<close> of the characters in
  first-appearance order: \<open>af_heart\<close> for a narrator; for the \<open>k\<close>-th male-named
  character the male pool at \<open>k mod 2\<close>; for the \<open>k\<close>-th female-named character the
  female pool at \<open>k mod 5\<close>; for any other character \<open>am_adam\<close> when \<open>j\<close> is even
  and \<open>af_bella\<close> when it is odd.
\<close>

definition suggested_voice :: "string list \<Rightarrow> nat \<Rightarrow> string" where
  "suggested_voice characters j =
     (let character = characters ! j
      in if narrator_named character then ''af_heart''
         else if male_named character then
           available_voices_male
             ! (length (filter male_named (take j characters)) mod length available_voices_male)
         else if female_named character then
           available_voices_female
             ! (length (filter female_named (take j characters))
                  mod length available_voices_female)
         else if even j then ''am_adam''
         else ''af_bella'')"

section \<open>Properties of the concatenator\<close>

subsection \<open>The crossfade window\<close>

text \<open>
  A significand with at least nine binary digits after the point: rounding
  \<open>n / 1000\<close> to it never reaches the next integer, as the fraction of \<open>n / 1000\<close>
  is at most 0.999.
\<close>

lemma round_half_even_scaled:
  fixes n P :: int
  assumes "512 \<le> P" "0 \<le> n"
  shows "round_half_even (n * P) 1000 div P = n div 1000"
proof -
  define q r where "q = n div 1000" and "r = n mod 1000"
  define X where "X = r * P"
  define t u where "t = X div 1000" and "u = X mod 1000"
  have n: "n = q * 1000 + r"
    by (simp add: q_def r_def)
  have r: "0 \<le> r" "r \<le> 999"
    using pos_mod_bound [of 1000 n] by (simp_all add: r_def)
  have X: "X = 1000 * t + u" and u: "0 \<le> u" "u < 1000"
    by (simp_all add: t_def u_def)
  have Xle: "X \<le> 999 * P" "0 \<le> X"
    unfolding X_def using r assms(1) by (simp_all add: mult_right_mono)
  have NP: "n * P = (q * P) * 1000 + X"
    by (simp add: n X_def algebra_simps)
  have d: "(n * P) div 1000 = q * P + t"
    unfolding NP t_def by simp
  have m: "(n * P) mod 1000 = u"
    unfolding NP u_def by simp
  have t0: "0 \<le> t" using Xle(2) by (simp add: t_def pos_imp_zdiv_nonneg_iff)
  have tP: "t \<le> P - 1" using X u Xle assms(1) by linarith
  have small: "2 * u < 1000" if "t = P - 1"
    using that X u Xle assms(1) by linarith
  define \<delta> where "\<delta> = round_half_even (n * P) 1000 - (q * P + t)"
  have rhe: "round_half_even (n * P) 1000 = q * P + t + \<delta>"
    by (simp add: \<delta>_def)
  have \<delta>: "0 \<le> \<delta>" "\<delta> \<le> 1" "t = P - 1 \<longrightarrow> \<delta> = 0"
    using small by (simp_all add: \<delta>_def round_half_even_def Let_def d m)
  have "0 \<le> t + \<delta>" "t + \<delta> < P" using t0 tP \<delta> by auto
  then have "(q * P + (t + \<delta>)) div P = q"
    using assms(1) by (simp add: div_pos_pos_trivial)
  then show ?thesis by (simp add: rhe q_def add.assoc)
qed

lemma bit_length_le: "n < 2 ^ k \<Longrightarrow> bit_length n \<le> k"
proof (induction k arbitrary: n)
  case 0
  then show ?case by (simp add: bit_length.simps)
next
  case (Suc k)
  show ?case
  proof (cases "n = 0")
    case True
    then show ?thesis by (simp add: bit_length.simps)
  next
    case False
    from Suc.prems have "n div 2 < 2 ^ k" by simp
    then have "bit_length (n div 2) \<le> k" by (rule Suc.IH)
    with False show ?thesis by (subst bit_length.simps) simp
  qed
qed

lemma bit_length_eq: "2 ^ k \<le> n \<Longrightarrow> n < 2 ^ Suc k \<Longrightarrow> bit_length n = Suc k"
proof (induction k arbitrary: n)
  case 0
  then have "n = 1" by simp
  then show ?case by (simp add: bit_length.simps)
next
  case (Suc k)
  from Suc.prems have "2 ^ k \<le> n div 2" "n div 2 < 2 ^ Suc k" by simp_all
  then have "bit_length (n div 2) = Suc k" by (rule Suc.IH)
  moreover from Suc.prems have "n \<noteq> 0" by auto
  ultimately show ?case by (subst bit_length.simps) simp
qed

lemma quotient_exponent_le:
  assumes "int n < 17592186044416000"
  shows "quotient_exponent n \<le> 43"
proof -
  have "n < 2 ^ 54" using assms by simp
  then have bl: "int (bit_length n) \<le> 54" using bit_length_le [of n 54] by simp
  define e where "e = int (bit_length n) - 10"
  show ?thesis
  proof (cases "0 \<le> e \<and> 1000 * 2 ^ nat e \<le> int n")
    case True
    then have "(1000::int) * 2 ^ nat e < 1000 * 2 ^ 44" using assms by simp
    then have "(2::int) ^ nat e < 2 ^ 44" by simp
    then have "nat e < 44" by (simp only: power_strict_increasing_iff) 
    then show ?thesis using True bl by (simp add: quotient_exponent_def Let_def e_def [symmetric])
  next
    case False
    have "e \<le> 44" using bl by (simp add: e_def)
    with False show ?thesis
      unfolding quotient_exponent_def Let_def e_def [symmetric] by auto
  qed
qed

lemma less_mult_of_div_less:
  fixes m P B :: int
  assumes "0 < P" "m div P < B"
  shows "m < B * P"
proof -
  have a: "m = P * (m div P) + m mod P" by simp
  have b: "m mod P < P" using assms(1) by simp
  have "m < P * (m div P) + P" using a b by linarith
  also have "\<dots> = P * (m div P + 1)" by (simp add: algebra_simps)
  also have "\<dots> \<le> P * B"
    using assms by (intro mult_left_mono) simp_all
  finally show ?thesis by (simp add: mult.commute)
qed

lemma float_div_1000_small:
  assumes "int n < 17592186044416000"
  shows "\<not> float_overflows (float_div_1000 n)"
    and "float_to_int (float_div_1000 n) = int n div 1000"
proof -
  define s where "s = quotient_exponent n - 52"
  define k where "k = nat (- s)"
  have s: "s \<le> - 9" using quotient_exponent_le [OF assms] by (simp add: s_def)
  then have k: "9 \<le> k" "nat s = 0" by (simp_all add: k_def)
  have P: "(512::int) \<le> 2 ^ k"
    using power_increasing [of 9 k "2::int"] k(1) by simp
  have fd: "float_div_1000 n = (round_half_even (int n * 2 ^ k) 1000, s)"
    using s by (simp add: float_div_1000_def Let_def s_def [symmetric] k_def)
  have q: "round_half_even (int n * 2 ^ k) 1000 div 2 ^ k = int n div 1000"
    using round_half_even_scaled [OF P, of "int n"] by simp
  show "float_to_int (float_div_1000 n) = int n div 1000"
    using s q by (simp add: fd float_to_int_def k_def [symmetric])
  have "int n div 1000 < 2 ^ 1024"
  proof -
    have "int n div 1000 \<le> int n" by (simp add: div_le_dividend zdiv_int [symmetric] del: zdiv_int)
    also have "\<dots> < 2 ^ 54" using assms by simp
    also have "(2::int) ^ 54 \<le> 2 ^ 1024" by (rule power_increasing) simp_all
    finally show ?thesis .
  qed
  then have "round_half_even (int n * 2 ^ k) 1000 div 2 ^ k < 2 ^ 1024"
    by (simp only: q)
  then have "round_half_even (int n * 2 ^ k) 1000 < 2 ^ 1024 * 2 ^ k"
    by (intro less_mult_of_div_less) simp_all
  then show "\<not> float_overflows (float_div_1000 n)"
    by (simp add: fd float_overflows_def k(2) k_def [symmetric])
qed

lemma crossfade_samples_small:
  assumes "\<bar>r * d\<bar> < 17592186044416000"
  shows "crossfade_samples r d =
           Inr (if 0 \<le> r * d then (r * d) div 1000 else - ((- (r * d)) div 1000))"
proof -
  define p where "p = r * d"
  have cs: "crossfade_samples r d =
      (if p = 0 then Inr 0
       else if float_overflows (float_div_1000 (nat \<bar>p\<bar>)) then Inl OverflowError
       else Inr (sgn p * float_to_int (float_div_1000 (nat \<bar>p\<bar>))))"
    by (simp add: crossfade_samples_def Let_def p_def)
  have n: "int (nat \<bar>p\<bar>) < 17592186044416000" using assms by (simp add: p_def)
  note fd = float_div_1000_small [OF n]
  have "crossfade_samples r d = Inr (if 0 \<le> p then p div 1000 else - ((- p) div 1000))"
  proof (cases "p = 0")
    case True
    then show ?thesis by (simp add: cs)
  next
    case False
    show ?thesis
    proof (cases "0 \<le> p")
      case True
      with False have "sgn p = 1" "\<bar>p\<bar> = p" by simp_all
      with False True fd show ?thesis by (simp add: cs)
    next
      case neg: False
      then have "sgn p = - 1" "\<bar>p\<bar> = - p" by simp_all
      with False neg fd show ?thesis by (simp add: cs)
    qed
  qed
  then show ?thesis by (simp add: p_def)
qed

lemma floor_div_1000: "\<lfloor>real_of_int p / 1000\<rfloor> = p div 1000"
  using floor_divide_of_int_eq [of p 1000, where ?'a = real] by simp

lemma ceiling_div_1000: "\<lceil>real_of_int p / 1000\<rceil> = - ((- p) div 1000)"
  using floor_divide_of_int_eq [of "- p" 1000, where ?'a = real] by (simp add: ceiling_def)

text \<open>The window of the spec's example: sample rate 1000 and 50 ms give 50 samples.\<close>

lemma crossfade_samples_1000_50: "crossfade_samples 1000 50 = Inr 50"
  using crossfade_samples_small [of 1000 50] by simp

text \<open>
  Beyond the bound of \<open>crossfade_samples_small\<close> the rounding of the float quotient
  shows: the exact quotient 17592186044416.999 becomes the float 17592186044417.
\<close>

lemma crossfade_samples_beyond_bound:
  "crossfade_samples 17592186044416999 1 = Inr 17592186044417"
  by (simp add: crossfade_samples_def float_div_1000_def quotient_exponent_def
        bit_length.simps round_half_even_def float_overflows_def float_to_int_def Let_def)

text \<open>A quotient beyond the float range: \<open>10 ^ 400 / 1000\<close>.\<close>

lemma bit_length_10_400: "bit_length (10 ^ 400) = 1329"
  using bit_length_eq [of 1328 "10 ^ 400"] by simp

lemma crossfade_samples_overflow: "crossfade_samples (10 ^ 400) 1 = Inl OverflowError"
proof -
  have n: "nat \<bar>10 ^ 400 * 1\<bar> = 10 ^ 400" by simp
  have e: "quotient_exponent (10 ^ 400) = 1318"
    unfolding quotient_exponent_def bit_length_10_400 by simp
  have "float_overflows (float_div_1000 (10 ^ 400))"
    unfolding float_div_1000_def e by (simp add: float_overflows_def round_half_even_def)
  then show ?thesis
    unfolding crossfade_samples_def Let_def n by simp
qed

lemma crossfade_samples_cases:
  "(\<exists>n. crossfade_samples r d = Inr n) \<or> crossfade_samples r d = Inl OverflowError"
  by (simp add: crossfade_samples_def Let_def)

text \<open>
  C8. The claim that every non-empty input returns a waveform fails: with two
  waveforms, sample rate \<open>10 ^ 400\<close> and a crossfade of 1 ms, the window computation
  raises OverflowError.
\<close>

theorem concatenate_overflow:
  "concatenate_with_crossfade (10 ^ 400) [[0], [0]] 1 = Inl OverflowError"
  unfolding concatenate_with_crossfade_def crossfade_samples_overflow by simp

text \<open>
  C8, amended. \<open>concatenate_with_crossfade\<close> raises its empty-input error exactly
  when the list of segments is empty. For a non-empty list it returns a waveform,
  unless the list has two or more segments and the window computation raises
  OverflowError; that cannot happen for a single segment, nor when the product of
  sample rate and crossfade duration is below \<open>2 ^ 44 * 1000\<close> in absolute value.
\<close>

theorem concatenate_errors:
  "(concatenate_with_crossfade sr segs ms = Inl (ValueError ''No audio segments to concatenate''))
     = (segs = [])
   \<and> (segs \<noteq> [] \<longrightarrow>
        (\<exists>w. concatenate_with_crossfade sr segs ms = Inr w)
        \<or> (concatenate_with_crossfade sr segs ms = Inl OverflowError
            \<and> 2 \<le> length segs \<and> crossfade_samples sr ms = Inl OverflowError))
   \<and> (segs \<noteq> [] \<and> (length segs = 1 \<or> \<bar>sr * ms\<bar> < 17592186044416000) \<longrightarrow>
        (\<exists>w. concatenate_with_crossfade sr segs ms = Inr w))"
proof (intro conjI impI)
  show "(concatenate_with_crossfade sr segs ms
           = Inl (ValueError ''No audio segments to concatenate'')) = (segs = [])"
    using crossfade_samples_cases [of sr ms]
    by (auto simp: concatenate_with_crossfade_def split: list.splits)
next
  assume "segs \<noteq> []"
  then show "(\<exists>w. concatenate_with_crossfade sr segs ms = Inr w)
        \<or> (concatenate_with_crossfade sr segs ms = Inl OverflowError
            \<and> 2 \<le> length segs \<and> crossfade_samples sr ms = Inl OverflowError)"
    using crossfade_samples_cases [of sr ms]
    by (auto simp: concatenate_with_crossfade_def split: list.splits)
next
  assume a: "segs \<noteq> [] \<and> (length segs = 1 \<or> \<bar>sr * ms\<bar> < 17592186044416000)"
  show "\<exists>w. concatenate_with_crossfade sr segs ms = Inr w"
  proof (cases "length segs = 1")
    case True
    then show ?thesis
      by (auto simp: concatenate_with_crossfade_def split: list.splits)
  next
    case False
    with a have "\<bar>sr * ms\<bar> < 17592186044416000" by blast
    from crossfade_samples_small [OF this] a show ?thesis
      by (auto simp: concatenate_with_crossfade_def split: list.splits)
  qed
qed

theorem concatenate_errors_witness:
  "concatenate_with_crossfade 24000 [] 50 = Inl (ValueError ''No audio segments to concatenate'')
   \<and> (\<exists>w. concatenate_with_crossfade 24000 [[1, 2], [3]] 50 = Inr w)
   \<and> (\<exists>w. concatenate_with_crossfade (10 ^ 400) [[7]] 1 = Inr w)"
proof -
  have "concatenate_with_crossfade 24000 [] 50
          = Inl (ValueError ''No audio segments to concatenate'')"
    using concatenate_errors [of 24000 "[]" 50] by simp
  moreover have "\<exists>w. concatenate_with_crossfade 24000 [[1, 2], [3]] 50 = Inr w"
    using concatenate_errors [of 24000 "[[1, 2], [3]]" 50] by simp
  moreover have "\<exists>w. concatenate_with_crossfade (10 ^ 400) [[7]] 1 = Inr w"
    using concatenate_errors [of "10 ^ 400" "[[7]]" 1] by simp
  ultimately show ?thesis by blast
qed

text \<open>
  C5. The claim that the window is \<open>round (r * d / 1000)\<close> fails: for \<open>r = 1500\<close> and
  \<open>d = 1\<close> the code computes 1, and 1.5 rounds to 2.
\<close>

theorem crossfade_samples_not_rounded:
  "crossfade_samples 1500 1 = Inr 1 \<and> round (real_of_int (1500 * 1) / 1000) = 2"
  using crossfade_samples_small [of 1500 1] by (simp add: round_def)

text \<open>
  C5, amended. When the product of sample rate and crossfade duration is below
  \<open>2 ^ 44 * 1000 = 17592186044416000\<close> in absolute value, the window used for mixing
  is \<open>r * d / 1000\<close> truncated towards zero: its floor when the product is not
  negative, its ceiling otherwise; every later segment is mixed in with that window.
\<close>

theorem crossfade_samples_truncates:
  assumes "\<bar>r * d\<bar> < 17592186044416000"
  shows "crossfade_samples r d =
     Inr (if 0 \<le> r * d then \<lfloor>real_of_int (r * d) / 1000\<rfloor>
          else \<lceil>real_of_int (r * d) / 1000\<rceil>)
   \<and> concatenate_with_crossfade r (a # b # rest) d =
       Inr (foldl (crossfade_step
                     (if 0 \<le> r * d then \<lfloor>real_of_int (r * d) / 1000\<rfloor>
                      else \<lceil>real_of_int (r * d) / 1000\<rceil>)) a (b # rest))"
  unfolding floor_div_1000 ceiling_div_1000
  using crossfade_samples_small [OF assms]
  by (simp add: concatenate_with_crossfade_def)

theorem crossfade_samples_truncates_witness:
  "\<bar>1500 * 1\<bar> < (17592186044416000::int)
   \<and> crossfade_samples 1500 1 = Inr 1
   \<and> crossfade_samples 24000 50 = Inr 1200
   \<and> crossfade_samples (- 1500) 1 = Inr (- 1)
   \<and> concatenate_with_crossfade 1500 [[1, 2], [3, 4]] 1 = Inr [1, 2 * 1 + 3 * 0, 4]"
proof -
  have f: "\<lfloor>real_of_int (1500 * 1) / 1000\<rfloor> = 1" "\<lfloor>real_of_int (24000 * 50) / 1000\<rfloor> = 1200"
    "\<lceil>real_of_int (- 1500 * 1) / 1000\<rceil> = - 1"
    unfolding floor_div_1000 ceiling_div_1000 by simp_all
  have "crossfade_samples 1500 1 = Inr 1"
    using crossfade_samples_truncates [of 1500 1] f(1) by simp
  moreover have "crossfade_samples 24000 50 = Inr 1200"
    using crossfade_samples_truncates [of 24000 50] f(2) by simp
  moreover have "crossfade_samples (- 1500) 1 = Inr (- 1)"
    using crossfade_samples_truncates [of "- 1500" 1] f(3) by simp
  moreover have "concatenate_with_crossfade 1500 [[1, 2], [3, 4]] 1 = Inr (crossfade_step 1 [1, 2] [3, 4])"
    using crossfade_samples_truncates [of 1500 1 "[1, 2]" "[3, 4]" "[]"] f(1) by simp
  moreover have "crossfade_step 1 [1, 2] [3, 4] = [1, 2 * 1 + 3 * 0, 4]"
    by (simp add: crossfade_step_def linspace_def)
  ultimately show ?thesis by simp
qed

lemma length_linspace: "length (linspace a b n) = n"
  by (simp add: linspace_def)

lemma nth_linspace:
  "i < n \<Longrightarrow> 1 < n \<Longrightarrow> linspace a b n ! i = a + real i * ((b - a) / real (n - 1))"
  by (simp add: linspace_def)

text \<open>
  The mixing branch of the loop body, sample by sample: the last \<open>n\<close> samples of
  \<open>r\<close> fade out while the first \<open>n\<close> samples of \<open>c\<close> fade in.
\<close>

lemma crossfade_step_mixed:
  assumes "1 < n" "n \<le> length r" "n \<le> length c"
  shows "crossfade_step (int n) r c =
           take (length r - n) r
           @ map (\<lambda>i. r ! (length r - n + i) * (1 - real i / real (n - 1))
                       + c ! i * (real i / real (n - 1))) [0..<n]
           @ drop n c"
proof -
  have mix: "map2 (+) (map2 (*) (drop (length r - n) r) (linspace 1 0 n))
                      (map2 (*) (take n c) (linspace 0 1 n))
             = map (\<lambda>i. r ! (length r - n + i) * (1 - real i / real (n - 1))
                       + c ! i * (real i / real (n - 1))) [0..<n]"
    using assms
    by (intro nth_equalityI) (simp_all add: length_linspace nth_linspace algebra_simps)
  show ?thesis
    using assms by (simp add: crossfade_step_def Let_def mix)
qed

text \<open>
  C1. Two waveforms of 100 samples at sample rate 1000 and a crossfade of 50 ms give
  150 samples: the first 50 of \<open>a\<close>, then 50 mixed samples, sample \<open>i\<close> of the overlap
  being \<open>a[50+i] * (1 - i/49) + b[i] * (i/49)\<close>, then the last 50 of \<open>b\<close>.
\<close>

theorem crossfade_100_100_50:
  assumes "length a = 100" "length b = 100"
  shows "\<exists>w. concatenate_with_crossfade 1000 [a, b] 50 = Inr w \<and> length w = 150
     \<and> (\<forall>i<50. w ! (50 + i) = a ! (50 + i) * (1 - real i / 49) + b ! i * (real i / 49))
     \<and> (\<forall>i<50. w ! i = a ! i)
     \<and> (\<forall>i<50. w ! (100 + i) = b ! (50 + i))"
proof -
  have step: "crossfade_step 50 a b =
           take 50 a @ map (\<lambda>i. a ! (50 + i) * (1 - real i / 49) + b ! i * (real i / 49)) [0..<50]
           @ drop 50 b"
    using crossfade_step_mixed [of 50 a b] assms by simp
  have "concatenate_with_crossfade 1000 [a, b] 50 = Inr (crossfade_step 50 a b)"
    by (simp add: concatenate_with_crossfade_def crossfade_samples_1000_50)
  moreover have "length (crossfade_step 50 a b) = 150"
    unfolding step using assms by simp
  moreover have "\<forall>i<50. crossfade_step 50 a b ! (50 + i)
       = a ! (50 + i) * (1 - real i / 49) + b ! i * (real i / 49)"
    unfolding step using assms by (simp add: nth_append)
  moreover have "\<forall>i<50. crossfade_step 50 a b ! i = a ! i"
    unfolding step using assms by (simp add: nth_append)
  moreover have "\<forall>i<50. crossfade_step 50 a b ! (100 + i) = b ! (50 + i)"
    unfolding step using assms by (simp add: nth_append)
  ultimately show ?thesis by blast
qed

theorem crossfade_100_100_50_witness:
  "length (replicate 100 (1::real)) = 100 \<and> length (replicate 100 (0::real)) = 100
   \<and> (\<exists>w. concatenate_with_crossfade 1000 [replicate 100 1, replicate 100 0] 50 = Inr w
          \<and> length w = 150 \<and> w ! 74 = 25 / 49 \<and> w ! 75 = 24 / 49)"
proof -
  obtain w where w:
    "concatenate_with_crossfade 1000 [replicate 100 1, replicate 100 0] 50 = Inr w"
    "length w = 150"
    "\<forall>i<50. w ! (50 + i) = replicate 100 (1::real) ! (50 + i) * (1 - real i / 49)
                            + replicate 100 (0::real) ! i * (real i / 49)"
    using crossfade_100_100_50 [of "replicate 100 1" "replicate 100 0"] by auto
  have "w ! 74 = 25 / 49" "w ! 75 = 24 / 49"
    using w(3) [rule_format, of 24] w(3) [rule_format, of 25] by simp_all
  with w(1,2) show ?thesis by simp
qed

section \<open>Properties of the parser\<close>

text \<open>
  The four patterns on the usual cues: inline dialogue, bracketed and bold names, a
  bare name, a line that is no cue, and keywords that patterns 1 and 3 reject.
\<close>

lemma detect_speaker_examples:
  "detect_speaker ''JOHN: hi'' = Some (''JOHN'', ''hi'')"
  "detect_speaker ''(SARAH) hello there'' = Some (''SARAH'', ''hello there'')"
  "detect_speaker ''**BOB** hello there'' = Some (''BOB'', ''hello there'')"
  "detect_speaker ''JOHN'' = Some (''JOHN'', [])"
  "detect_speaker ''Hello there'' = None"
  "detect_speaker ''INT: hi'' = None"
  "detect_speaker ''NIGHT'' = None"
  by code_simp+

lemma detect_characters_example:
  "detect_characters
     (''JOHN: a'' @ [newline] @ ''JOHN: b'' @ [newline] @ ''SARAH: c'' @ [newline] @ ''JOHN: d'')
   = [(''JOHN'', 3), (''SARAH'', 1)]"
  by code_simp

text \<open>
  C2. The scene heading \<open>INT. KITCHEN - NIGHT\<close> is not skipped: pattern 3 accepts it,
  its upper-cased form is not a member of the keyword set, and the line becomes the
  active speaker. The parenthetical on the next line, which \<open>_is_scene_direction\<close>
  would drop while no speaker is active, is then emitted as that speaker's dialogue.
\<close>

theorem scene_heading_opens_speaker:
  "detect_speaker ''INT. KITCHEN - NIGHT'' = Some (''INT. KITCHEN - NIGHT'', [])
   \<and> is_scene_direction ''INT. KITCHEN - NIGHT''
   \<and> parse_script (''INT. KITCHEN - NIGHT'' @ [newline] @ ''(He walks in)'') None
       = Inr [(''af_heart'', ''(He walks in)'')]
   \<and> parse_script ''(He walks in)'' None = Inr []"
  by code_simp

subsection \<open>Voice resolution\<close>

lemma to_upper_idem: "to_upper (to_upper c) = to_upper c"
  by (simp add: to_upper_def lower_chars_def upper_chars_def)

lemma str_upper_idem: "str_upper (str_upper s) = str_upper s"
  by (simp add: str_upper_def to_upper_idem)

lemma find_key_Some:
  "find (\<lambda>(key, voice). str_upper key = u) vm = Some (k, v) \<Longrightarrow> (k, v) \<in> set vm \<and> str_upper k = u"
  by (induction vm) (auto split: if_splits)

lemma no_key_lookup:
  assumes "\<forall>(k, v) \<in> set vm. str_upper k \<noteq> str_upper speaker"
  shows "map_of vm (str_upper speaker) = None"
    and "find (\<lambda>(key, voice). str_upper key = str_upper speaker) vm = None"
proof -
  show "map_of vm (str_upper speaker) = None"
  proof (cases "map_of vm (str_upper speaker)")
    case (Some v)
    then have "(str_upper speaker, v) \<in> set vm" by (rule map_of_SomeD)
    with assms have "str_upper (str_upper speaker) \<noteq> str_upper speaker" by blast
    then show ?thesis by (simp add: str_upper_idem)
  qed simp
  show "find (\<lambda>(key, voice). str_upper key = str_upper speaker) vm = None"
    using assms by (auto simp: find_None_iff)
qed

lemma voice_without_key:
  assumes "\<forall>(k, v) \<in> set vm. str_upper k \<noteq> str_upper speaker"
  shows "get_voice_for_speaker speaker vm =
     (case str_split (str_lower speaker) of
        [] \<Rightarrow> Inl IndexError
      | t # _ \<Rightarrow>
          if t \<in> set male_names then Inr ''am_adam''
          else if t \<in> set female_names then Inr ''af_bella''
          else Inr ''af_heart'')"
  using no_key_lookup [OF assms]
  by (simp add: get_voice_for_speaker_def Let_def available_voices_male_def
        available_voices_female_def default_voices_NARRATOR_def default_voices_DEFAULT_def
      split: list.splits)

lemma voice_with_key:
  assumes "(k, v) \<in> set vm" "str_upper k = str_upper speaker"
  shows "\<exists>k' v'. (k', v') \<in> set vm \<and> str_upper k' = str_upper speaker
          \<and> get_voice_for_speaker speaker vm = Inr v'"
proof (cases "map_of vm (str_upper speaker)")
  case (Some v')
  then have "(str_upper speaker, v') \<in> set vm" by (rule map_of_SomeD)
  moreover have "get_voice_for_speaker speaker vm = Inr v'"
    using Some by (simp add: get_voice_for_speaker_def)
  ultimately show ?thesis using str_upper_idem by blast
next
  case None
  from assms obtain k' v' where
    f: "find (\<lambda>(key, voice). str_upper key = str_upper speaker) vm = Some (k', v')"
    by (cases "find (\<lambda>(key, voice). str_upper key = str_upper speaker) vm")
       (auto simp: find_None_iff)
  then have "get_voice_for_speaker speaker vm = Inr v'"
    using None by (simp add: get_voice_for_speaker_def)
  with find_key_Some [OF f] show ?thesis by blast
qed

lemma voice_rules_in_order:
  assumes "\<forall>(k, v) \<in> set vm. str_upper k \<noteq> str_upper speaker"
    and "str_split (str_lower speaker) = t # ts"
  shows "get_voice_for_speaker speaker vm =
        Inr (if t \<in> set male_names then available_voices_male ! 0
             else if t \<in> set female_names then available_voices_female ! 0
             else if str_contains ''narr'' t \<or> str_upper speaker = ''NARRATOR''
               then default_voices_NARRATOR
             else default_voices_DEFAULT)"
  using no_key_lookup [OF assms(1)] assms(2)
  by (simp add: get_voice_for_speaker_def Let_def)

text \<open>
  C3. When some key of the voice map equals the speaker name case-insensitively, the
  voice returned is the one mapped by such a key, whatever the gender, narrator and
  default rules say. Only when no key matches are those rules consulted, in the order
  male name, female name, narrator, default, on the first token of the name.
\<close>

theorem voice_map_first:
  "((k, v) \<in> set vm \<and> str_upper k = str_upper speaker \<longrightarrow>
      (\<exists>k' v'. (k', v') \<in> set vm \<and> str_upper k' = str_upper speaker
          \<and> get_voice_for_speaker speaker vm = Inr v'))
   \<and> ((\<forall>(k, v) \<in> set vm. str_upper k \<noteq> str_upper speaker)
        \<and> str_split (str_lower speaker) = t # ts \<longrightarrow>
      get_voice_for_speaker speaker vm =
        Inr (if t \<in> set male_names then available_voices_male ! 0
             else if t \<in> set female_names then available_voices_female ! 0
             else if str_contains ''narr'' t \<or> str_upper speaker = ''NARRATOR''
               then default_voices_NARRATOR
             else default_voices_DEFAULT))"
  using voice_with_key [of k v vm speaker] voice_rules_in_order [of vm speaker t ts]
  by blast

theorem voice_map_first_witness:
  "(''JOHN'', ''x'') \<in> set [(''JOHN'', ''x'')] \<and> str_upper ''JOHN'' = str_upper ''John''
   \<and> get_voice_for_speaker ''John'' [(''JOHN'', ''x'')] = Inr ''x''
   \<and> list_all (\<lambda>(k, v). str_upper k \<noteq> str_upper ''John'') [(''MARY'', ''y'')]
   \<and> str_split (str_lower ''John'') = [''john'']
   \<and> get_voice_for_speaker ''John'' [(''MARY'', ''y'')] = Inr ''am_adam''"
proof -
  have h1: "(''JOHN'', ''x'') \<in> set [(''JOHN'', ''x'')] \<and> str_upper ''JOHN'' = str_upper ''John''"
    by code_simp
  have h2: "list_all (\<lambda>(k, v). str_upper k \<noteq> str_upper ''John'') [(''MARY'', ''y'')]
     \<and> str_split (str_lower ''John'') = ''john'' # []"
    by code_simp
  have m: "''john'' \<in> set male_names" by code_simp
  from voice_map_first [of "''JOHN''" "''x''" "[(''JOHN'', ''x'')]" "''John''" "''john''" "[]"] h1
  have "get_voice_for_speaker ''John'' [(''JOHN'', ''x'')] = Inr ''x''" by auto
  moreover
  from voice_map_first [of "''JOHN''" "''x''" "[(''MARY'', ''y'')]" "''John''" "''john''" "[]"] h2 m
  have "get_voice_for_speaker ''John'' [(''MARY'', ''y'')] = Inr ''am_adam''"
    by (simp add: available_voices_male_def)
  ultimately show ?thesis using h1 h2 by blast
qed

lemma split_ws_tok: "tok \<noteq> [] \<Longrightarrow> split_ws tok s \<noteq> []"
  by (induction s arbitrary: tok) auto

lemma split_ws_nonspace: "\<exists>c \<in> set s. \<not> is_space c \<Longrightarrow> split_ws tok s \<noteq> []"
  by (induction s arbitrary: tok) (auto simp: split_ws_tok)

lemma str_split_nonspace: "c \<in> set s \<Longrightarrow> \<not> is_space c \<Longrightarrow> str_split s \<noteq> []"
  unfolding str_split_def by (rule split_ws_nonspace) blast

lemma str_contains_subset: "str_contains sub s \<Longrightarrow> set sub \<subseteq> set s"
proof (induction s)
  case Nil
  then show ?case by simp
next
  case (Cons c cs)
  from Cons.prems have "take (length sub) (c # cs) = sub \<or> str_contains sub cs" by simp
  then show ?case
  proof
    assume "take (length sub) (c # cs) = sub"
    then have "set sub = set (take (length sub) (c # cs))" by simp
    then show ?thesis using set_take_subset [of "length sub" "c # cs"] by blast
  next
    assume "str_contains sub cs"
    then show ?thesis using Cons.IH by auto
  qed
qed

lemma n_not_space: "\<not> is_space CHR ''n''"
  by (simp add: is_space_def whitespace_chars_def)

text \<open>
  C7. A speaker with no key in the voice map and a first token in neither name set,
  whose name contains \<open>narr\<close> in any letter case or is \<open>NARRATOR\<close>, gets the
  narrator voice \<open>af_heart\<close>.
\<close>

theorem narrator_voice:
  assumes "\<forall>(k, v) \<in> set vm. str_upper k \<noteq> str_upper speaker"
    and "str_contains ''narr'' (str_lower speaker) \<or> speaker = ''NARRATOR''"
    and "\<forall>t ts. str_split (str_lower speaker) = t # ts \<longrightarrow>
           t \<notin> set male_names \<and> t \<notin> set female_names"
  shows "get_voice_for_speaker speaker vm = Inr default_voices_NARRATOR
         \<and> default_voices_NARRATOR = ''af_heart''"
proof -
  have "str_contains ''narr'' (str_lower speaker)"
    using assms(2) by (auto simp: str_lower_def to_lower_def upper_chars_def lower_chars_def)
  then have "CHR ''n'' \<in> set (str_lower speaker)"
    using str_contains_subset by fastforce
  then have "str_split (str_lower speaker) \<noteq> []"
    using n_not_space by (rule str_split_nonspace)
  then obtain t ts where ts: "str_split (str_lower speaker) = t # ts"
    by (cases "str_split (str_lower speaker)") auto
  with assms(3) have "t \<notin> set male_names" "t \<notin> set female_names" by auto
  with ts voice_without_key [OF assms(1)] show ?thesis
    by (simp add: default_voices_NARRATOR_def)
qed

theorem narrator_voice_witness:
  "list_all (\<lambda>(k, v). str_upper k \<noteq> str_upper ''THE NARRATOR'') [(''JOHN'', ''x'')]
   \<and> str_contains ''narr'' (str_lower ''THE NARRATOR'')
   \<and> str_split (str_lower ''THE NARRATOR'') = [''the'', ''narrator'']
   \<and> ''the'' \<notin> set male_names \<and> ''the'' \<notin> set female_names
   \<and> get_voice_for_speaker ''THE NARRATOR'' [(''JOHN'', ''x'')] = Inr ''af_heart''"
proof -
  have h1: "list_all (\<lambda>(k, v). str_upper k \<noteq> str_upper ''THE NARRATOR'') [(''JOHN'', ''x'')]"
    by code_simp
  have h2: "str_contains ''narr'' (str_lower ''THE NARRATOR'')"
    by code_simp
  have sp: "str_split (str_lower ''THE NARRATOR'') = [''the'', ''narrator'']"
    by code_simp
  have nm: "''the'' \<notin> set male_names \<and> ''the'' \<notin> set female_names"
    by code_simp
  have h3: "\<forall>t ts. str_split (str_lower ''THE NARRATOR'') = t # ts \<longrightarrow>
           t \<notin> set male_names \<and> t \<notin> set female_names"
    unfolding sp using nm by simp
  from narrator_voice [of "[(''JOHN'', ''x'')]" "''THE NARRATOR''"] h1 h2 h3
  have "get_voice_for_speaker ''THE NARRATOR'' [(''JOHN'', ''x'')] = Inr ''af_heart''"
    by (simp add: default_voices_NARRATOR_def)
  with h1 h2 sp nm show ?thesis by blast
qed

subsection \<open>Detected speakers start with a capital letter\<close>

lemma one_of_SomeD: "one_of P k s = Some r \<Longrightarrow> \<exists>c s'. P c \<and> k c s' = Some r"
  by (auto simp: one_of_def split: list.splits if_splits)

lemma lit_SomeD: "lit x k s = Some r \<Longrightarrow> \<exists>s'. k s' = Some r"
  by (auto simp: lit_def split: list.splits if_splits)

lemma lazy_more_SomeD:
  "lazy_more P k acc s = Some r \<Longrightarrow> \<exists>taken s'. k (acc @ taken) s' = Some r"
proof (induction s arbitrary: acc)
  case Nil
  then show ?case by (metis append_Nil2 lazy_more.simps(1))
next
  case (Cons c cs)
  show ?case
  proof (cases "k acc (c # cs)")
    case (Some r')
    with Cons.prems have "k (acc @ []) (c # cs) = Some r" by simp
    then show ?thesis by blast
  next
    case None
    with Cons.prems have "lazy_more P k (acc @ [c]) cs = Some r"
      by (simp split: if_splits)
    from Cons.IH [OF this] obtain taken s' where "k ((acc @ [c]) @ taken) s' = Some r" by blast
    then have "k (acc @ (c # taken)) s' = Some r" by simp
    then show ?thesis by blast
  qed
qed

lemma greedy_more_SomeD:
  "greedy_more P k acc s = Some r \<Longrightarrow> \<exists>taken s'. k (acc @ taken) s' = Some r"
proof (induction s arbitrary: acc)
  case Nil
  then show ?case by (metis append_Nil2 greedy_more.simps(1))
next
  case (Cons c cs)
  show ?case
  proof (cases "P c \<and> greedy_more P k (acc @ [c]) cs \<noteq> None")
    case True
    with Cons.prems have "greedy_more P k (acc @ [c]) cs = Some r" by auto
    from Cons.IH [OF this] obtain taken s' where "k ((acc @ [c]) @ taken) s' = Some r" by blast
    then have "k (acc @ (c # taken)) s' = Some r" by simp
    then show ?thesis by blast
  next
    case False
    with Cons.prems have "k (acc @ []) (c # cs) = Some r"
      by (auto split: if_splits option.splits)
    then show ?thesis by blast
  qed
qed

lemma eol_SomeD: "eol r s = Some r' \<Longrightarrow> r' = r"
  by (simp add: eol_def split: if_splits)

lemma dialogue_tail_SomeD: "dialogue_tail g1 s = Some (g, d) \<Longrightarrow> g = g1"
  unfolding dialogue_tail_def
  by (auto dest!: greedy_more_SomeD one_of_SomeD eol_SomeD)

lemma name_lazy_SomeD:
  "name_lazy k s = Some r \<Longrightarrow> \<exists>c taken s'. is_AZ c \<and> k (c # taken) s' = Some r"
  unfolding name_lazy_def
  by (fastforce dest!: one_of_SomeD lazy_more_SomeD)

lemma pattern1_capital: "pattern1 s = Some (g1, g2) \<Longrightarrow> \<exists>c taken. is_AZ c \<and> g1 = c # taken"
  unfolding pattern1_def
  by (fastforce dest!: name_lazy_SomeD lit_SomeD dialogue_tail_SomeD)

lemma pattern2_capital: "pattern2 s = Some (g1, g2) \<Longrightarrow> \<exists>c taken. is_AZ c \<and> g1 = c # taken"
  unfolding pattern2_def
  by (fastforce dest!: one_of_SomeD name_lazy_SomeD dialogue_tail_SomeD)

lemma pattern3_capital: "pattern3 s = Some g1 \<Longrightarrow> \<exists>c taken. is_AZ c \<and> g1 = c # taken"
  unfolding pattern3_def
  by (fastforce dest!: one_of_SomeD greedy_more_SomeD eol_SomeD)

lemma pattern4_capital: "pattern4 s = Some (g1, g2) \<Longrightarrow> \<exists>c taken. is_AZ c \<and> g1 = c # taken"
  unfolding pattern4_def
  by (fastforce dest!: lit_SomeD name_lazy_SomeD dialogue_tail_SomeD)

lemma is_AZ_not_space: "is_AZ c \<Longrightarrow> \<not> is_space c"
  by (auto simp: is_AZ_def is_space_def upper_chars_def whitespace_chars_def)

lemma is_AZ_lower_not_space: "is_AZ c \<Longrightarrow> \<not> is_space (to_lower c)"
  by (auto simp: is_AZ_def is_space_def upper_chars_def lower_chars_def whitespace_chars_def
        to_lower_def)

lemma str_strip_Cons: "\<not> is_space c \<Longrightarrow> \<exists>cs'. str_strip (c # cs) = c # cs'"
  by (simp add: str_strip_def dropWhile_append3)

lemma strip_capital:
  "is_AZ c \<Longrightarrow> \<exists>ca. is_AZ ca \<and> (\<exists>cs'. str_strip (c # cs) = ca # cs')"
  using str_strip_Cons [of c cs] is_AZ_not_space [of c] by auto

lemma try_pattern4_capital:
  "try_pattern4 line = Some (sp, d) \<Longrightarrow> \<exists>c cs. is_AZ c \<and> sp = c # cs"
  unfolding try_pattern4_def
  by (auto split: option.splits dest!: pattern4_capital intro: strip_capital)

lemma try_pattern3_capital:
  "try_pattern3 line = Some (sp, d) \<Longrightarrow> \<exists>c cs. is_AZ c \<and> sp = c # cs"
  unfolding try_pattern3_def Let_def
  by (auto split: option.splits if_splits dest!: pattern3_capital try_pattern4_capital
        intro: strip_capital)

lemma try_pattern2_capital:
  "try_pattern2 line = Some (sp, d) \<Longrightarrow> \<exists>c cs. is_AZ c \<and> sp = c # cs"
  unfolding try_pattern2_def
  by (auto split: option.splits dest!: pattern2_capital try_pattern3_capital
        intro: strip_capital)

lemma detect_speaker_capital:
  "detect_speaker line = Some (sp, d) \<Longrightarrow> \<exists>c cs. is_AZ c \<and> sp = c # cs"
  unfolding detect_speaker_def Let_def
  by (auto split: option.splits if_splits dest!: pattern1_capital try_pattern2_capital
        intro: strip_capital)

lemma capital_has_token: "is_AZ c \<Longrightarrow> has_token (c # cs)"
  unfolding has_token_def
  by (rule str_split_nonspace [of "to_lower c"]) (simp_all add: str_lower_def is_AZ_lower_not_space)

lemma detect_speaker_has_token: "detect_speaker line = Some (sp, d) \<Longrightarrow> has_token sp"
  using detect_speaker_capital capital_has_token by blast

lemma detect_speaker_nonempty: "detect_speaker line = Some (sp, d) \<Longrightarrow> sp \<noteq> []"
  using detect_speaker_capital by blast

lemma narrator_has_token: "has_token ''NARRATOR''"
  unfolding has_token_def by code_simp

subsection \<open>The loop never raises and keeps its invariants\<close>

lemma get_voice_total:
  assumes "has_token speaker"
  shows "\<exists>v. get_voice_for_speaker speaker vm = Inr v \<and> v \<in> snd ` set vm \<union> set builtin_voices"
proof (cases "\<forall>(k, v) \<in> set vm. str_upper k \<noteq> str_upper speaker")
  case True
  from assms obtain t ts where ts: "str_split (str_lower speaker) = t # ts"
    unfolding has_token_def by (cases "str_split (str_lower speaker)") auto
  have "get_voice_for_speaker speaker vm = Inr ''am_adam''
      \<or> get_voice_for_speaker speaker vm = Inr ''af_bella''
      \<or> get_voice_for_speaker speaker vm = Inr ''af_heart''"
    unfolding voice_without_key [OF True] ts by simp
  moreover have "set builtin_voices = {''am_adam'', ''af_bella'', ''af_heart''}"
    by (simp add: builtin_voices_def)
  ultimately show ?thesis by blast
next
  case False
  then obtain k v where "(k, v) \<in> set vm" "str_upper k = str_upper speaker" by blast
  from voice_with_key [OF this] obtain k' v' where
    "(k', v') \<in> set vm" "get_voice_for_speaker speaker vm = Inr v'" by blast
  moreover from this have "v' \<in> snd ` set vm" by force
  ultimately show ?thesis by blast
qed

lemma join_space_nonempty: "xs \<noteq> [] \<Longrightarrow> list_all (\<lambda>t. t \<noteq> []) xs \<Longrightarrow> join_space xs \<noteq> []"
  by (induction xs rule: join_space.induct) auto

lemma flush_ok:
  assumes "speaker_ok st"
  shows "\<exists>st'. flush vm st = Inr st' \<and> current_speaker st' = current_speaker st
           \<and> (texts_nonempty st \<longrightarrow> texts_nonempty st')
           \<and> (voices_allowed vm (segments st) \<longrightarrow> voices_allowed vm (segments st'))"
proof (cases "current_speaker st")
  case None
  then show ?thesis by (simp add: flush_def)
next
  case (Some speaker)
  with assms have "has_token speaker" by (simp add: speaker_ok_def)
  from get_voice_total [OF this, of vm] obtain v where
    v: "get_voice_for_speaker speaker vm = Inr v" "v \<in> snd ` set vm \<union> set builtin_voices"
    by blast
  show ?thesis
  proof (cases "speaker \<noteq> [] \<and> current_text st \<noteq> []")
    case True
    then show ?thesis
      using Some v
      by (auto simp: flush_def Let_def texts_nonempty_def voices_allowed_def join_space_nonempty)
  next
    case False
    then show ?thesis using Some by (auto simp: flush_def)
  qed
qed

lemma parse_line_ok:
  assumes "speaker_ok st"
  shows "\<exists>st'. parse_line vm l st = Inr st' \<and> speaker_ok st'
           \<and> (texts_nonempty st \<longrightarrow> texts_nonempty st')
           \<and> (voices_allowed vm (segments st) \<longrightarrow> voices_allowed vm (segments st'))"
proof (cases "str_strip l = []")
  case True
  with assms show ?thesis by (simp add: parse_line_def)
next
  case nonblank: False
  show ?thesis
  proof (cases "detect_speaker (str_strip l)")
    case None
    with nonblank assms show ?thesis
      by (auto simp: parse_line_def Let_def speaker_ok_def texts_nonempty_def narrator_has_token)
  next
    case (Some sd)
    obtain sp d where sd: "sd = (sp, d)" by (cases sd)
    from Some sd have tok: "has_token sp" using detect_speaker_has_token by blast
    from flush_ok [OF assms, of vm] obtain st1 where
      st1: "flush vm st = Inr st1" "texts_nonempty st \<longrightarrow> texts_nonempty st1"
        "voices_allowed vm (segments st) \<longrightarrow> voices_allowed vm (segments st1)"
      by blast
    with nonblank Some sd tok show ?thesis
      by (auto simp: parse_line_def Let_def speaker_ok_def texts_nonempty_def)
  qed
qed

lemma parse_loop_ok:
  "speaker_ok st \<Longrightarrow>
   \<exists>st'. parse_loop vm ls st = Inr st' \<and> speaker_ok st'
           \<and> (texts_nonempty st \<longrightarrow> texts_nonempty st')
           \<and> (voices_allowed vm (segments st) \<longrightarrow> voices_allowed vm (segments st'))"
proof (induction ls arbitrary: st)
  case Nil
  then show ?case by simp
next
  case (Cons l ls)
  from parse_line_ok [OF Cons.prems, of vm l] obtain st1 where
    st1: "parse_line vm l st = Inr st1" "speaker_ok st1"
      "texts_nonempty st \<longrightarrow> texts_nonempty st1"
      "voices_allowed vm (segments st) \<longrightarrow> voices_allowed vm (segments st1)"
    by blast
  from Cons.IH [OF st1(2)] obtain st' where
    "parse_loop vm ls st1 = Inr st'" "speaker_ok st'"
      "texts_nonempty st1 \<longrightarrow> texts_nonempty st'"
      "voices_allowed vm (segments st1) \<longrightarrow> voices_allowed vm (segments st')"
    by blast
  with st1 show ?case by auto
qed

lemma parse_lines_ok:
  "\<exists>segs. parse_lines ls vm = Inr segs \<and> list_all (\<lambda>(v, t). t \<noteq> []) segs
          \<and> voices_allowed vm segs"
proof -
  have i: "speaker_ok initial_state" "texts_nonempty initial_state"
    "voices_allowed vm (segments initial_state)"
    by (simp_all add: initial_state_def speaker_ok_def texts_nonempty_def voices_allowed_def)
  from parse_loop_ok [OF i(1), of vm ls] i obtain st where
    st: "parse_loop vm ls initial_state = Inr st" "speaker_ok st" "texts_nonempty st"
      "voices_allowed vm (segments st)"
    by blast
  from flush_ok [OF st(2), of vm] st obtain st' where
    "flush vm st = Inr st'" "texts_nonempty st'" "voices_allowed vm (segments st')"
    by blast
  with st(1) show ?thesis by (auto simp: parse_lines_def texts_nonempty_def)
qed

text \<open>
  C4. Every segment that \<open>parse_script\<close> emits has a text that is not empty; the call
  always returns. A speaker cue with nothing buffered when the next cue or the end
  of the input arrives emits no segment.
\<close>

theorem segment_text_nonempty:
  "\<exists>segs. parse_script script_text voice_mappings = Inr segs
          \<and> (\<forall>(voice, text) \<in> set segs. text \<noteq> [])"
proof -
  obtain segs where "parse_script script_text voice_mappings = Inr segs"
    "list_all (\<lambda>(v, t). t \<noteq> []) segs"
    unfolding parse_script_def using parse_lines_ok by blast
  then show ?thesis by (auto simp: list_all_iff)
qed

theorem segment_text_nonempty_witness:
  "parse_script (''JOHN'' @ [newline] @ ''SARAH: hi'' @ [newline] @ ''BOB'') None
     = Inr [(''af_bella'', ''hi'')]
   \<and> list_all (\<lambda>(voice, text). text \<noteq> []) [(''af_bella'', ''hi'')]"
proof -
  have e: "parse_script (''JOHN'' @ [newline] @ ''SARAH: hi'' @ [newline] @ ''BOB'') None
     = Inr [(''af_bella'', ''hi'')]"
    by code_simp
  with segment_text_nonempty
    [of "''JOHN'' @ [newline] @ ''SARAH: hi'' @ [newline] @ ''BOB''" None]
  show ?thesis by simp
qed

text \<open>
  C10. Every voice that \<open>parse_script\<close> emits is a value of the supplied voice map or
  one of \<open>am_adam\<close>, \<open>af_bella\<close>, \<open>af_heart\<close>; without a voice map it is one of
  these three.
\<close>

theorem emitted_voices_known:
  "\<exists>segs. parse_script script_text voice_mappings = Inr segs
          \<and> (\<forall>(voice, text) \<in> set segs.
                voice \<in> (case voice_mappings of None \<Rightarrow> {} | Some m \<Rightarrow> snd ` set m)
                          \<union> {''am_adam'', ''af_bella'', ''af_heart''})"
proof -
  let ?vm = "case voice_mappings of None \<Rightarrow> [] | Some m \<Rightarrow> m"
  obtain segs where s: "parse_script script_text voice_mappings = Inr segs"
    "voices_allowed ?vm segs"
    unfolding parse_script_def using parse_lines_ok by blast
  have "snd ` set ?vm = (case voice_mappings of None \<Rightarrow> {} | Some m \<Rightarrow> snd ` set m)"
    by (cases voice_mappings) auto
  with s show ?thesis
    by (auto simp: voices_allowed_def list_all_iff builtin_voices_def)
qed

theorem emitted_voices_known_witness:
  "parse_script (''JOHN: hi'' @ [newline] @ ''SARAH: yes'' @ [newline] @ ''ZOG: no'')
      (Some [(''Sarah'', ''x'')])
     = Inr [(''am_adam'', ''hi''), (''x'', ''yes''), (''af_heart'', ''no'')]
   \<and> list_all (\<lambda>(voice, text).
          voice \<in> snd ` set [(''Sarah'', ''x'')] \<union> {''am_adam'', ''af_bella'', ''af_heart''})
        [(''am_adam'', ''hi''), (''x'', ''yes''), (''af_heart'', ''no'')]"
proof -
  have e: "parse_script (''JOHN: hi'' @ [newline] @ ''SARAH: yes'' @ [newline] @ ''ZOG: no'')
      (Some [(''Sarah'', ''x'')])
     = Inr [(''am_adam'', ''hi''), (''x'', ''yes''), (''af_heart'', ''no'')]"
    by code_simp
  with emitted_voices_known
    [of "''JOHN: hi'' @ [newline] @ ''SARAH: yes'' @ [newline] @ ''ZOG: no''"
        "Some [(''Sarah'', ''x'')]"]
  show ?thesis by simp
qed

subsection \<open>Segments and their boundaries\<close>

lemma detect_speaker_Nil: "detect_speaker [] = None"
  by code_simp

lemma flush_prefix:
  "flush vm (st\<lparr>segments := p @ segments st\<rparr>) =
     (case flush vm st of Inl e \<Rightarrow> Inl e | Inr st' \<Rightarrow> Inr (st'\<lparr>segments := p @ segments st'\<rparr>))"
  by (simp add: flush_def Let_def split: option.splits sum.splits)

lemma parse_line_prefix:
  "parse_line vm l (st\<lparr>segments := p @ segments st\<rparr>) =
     (case parse_line vm l st of Inl e \<Rightarrow> Inl e
      | Inr st' \<Rightarrow> Inr (st'\<lparr>segments := p @ segments st'\<rparr>))"
  by (simp add: parse_line_def Let_def flush_prefix split: option.splits sum.splits)

lemma parse_loop_prefix:
  "parse_loop vm ls (st\<lparr>segments := p @ segments st\<rparr>) =
     (case parse_loop vm ls st of Inl e \<Rightarrow> Inl e
      | Inr st' \<Rightarrow> Inr (st'\<lparr>segments := p @ segments st'\<rparr>))"
proof (induction ls arbitrary: st)
  case Nil
  then show ?case by simp
next
  case (Cons l ls)
  show ?case
  proof (cases "parse_line vm l st")
    case (Inl e)
    then show ?thesis by (simp add: parse_line_prefix)
  next
    case (Inr st1)
    then show ?thesis using Cons.IH [of st1] by (simp add: parse_line_prefix)
  qed
qed

lemma parse_loop_append:
  "parse_loop vm (xs @ ys) st =
     (case parse_loop vm xs st of Inl e \<Rightarrow> Inl e | Inr st' \<Rightarrow> parse_loop vm ys st')"
  by (induction xs arbitrary: st) (auto split: sum.splits)

lemma skipped_line:
  "line_opens l = None \<Longrightarrow> current_speaker st = None \<Longrightarrow> parse_line vm l st = Inr st"
  by (auto simp: line_opens_def parse_line_def Let_def speaker_set_def
      split: option.splits if_splits)

lemma skipped_lines:
  "\<forall>l \<in> set pre. line_opens l = None \<Longrightarrow> current_speaker st = None \<Longrightarrow>
   parse_loop vm pre st = Inr st"
  by (induction pre) (auto simp: skipped_line)

lemma opening_line:
  assumes "line_opens l = Some (sp, buf)"
  shows "parse_line vm l initial_state =
           Inr \<lparr>segments = [], current_speaker = Some sp, current_text = buf\<rparr>"
    and "sp \<noteq> []" and "has_token sp"
proof -
  show "parse_line vm l initial_state =
           Inr \<lparr>segments = [], current_speaker = Some sp, current_text = buf\<rparr>"
    using assms
    by (auto simp: line_opens_def parse_line_def Let_def speaker_set_def initial_state_def
          flush_def detect_speaker_Nil split: option.splits if_splits)
  show "sp \<noteq> []" "has_token sp"
    using assms detect_speaker_nonempty detect_speaker_has_token narrator_has_token
    by (auto simp: line_opens_def Let_def split: option.splits if_splits)
qed

lemma continuation_lines:
  "\<forall>l \<in> set body. detect_speaker (str_strip l) = None \<Longrightarrow>
   speaker_set (current_speaker st) \<Longrightarrow>
   parse_loop vm body st =
     Inr (st\<lparr>current_text := current_text st @ filter (\<lambda>t. t \<noteq> []) (map str_strip body)\<rparr>)"
proof (induction body arbitrary: st)
  case Nil
  then show ?case by simp
next
  case (Cons l body)
  show ?case
  proof (cases "str_strip l = []")
    case True
    then have "parse_line vm l st = Inr st" by (simp add: parse_line_def)
    with True Cons show ?thesis by simp
  next
    case False
    with Cons.prems have
      "parse_line vm l st = Inr (st\<lparr>current_text := current_text st @ [str_strip l]\<rparr>)"
      by (simp add: parse_line_def)
    with False Cons.prems Cons.IH [of "st\<lparr>current_text := current_text st @ [str_strip l]\<rparr>"]
    show ?thesis by simp
  qed
qed

lemma flush_block:
  assumes "sp \<noteq> []" "get_voice_for_speaker sp vm = Inr voice"
  shows "flush vm \<lparr>segments = [], current_speaker = Some sp, current_text = texts\<rparr> =
           Inr \<lparr>segments = (if texts = [] then [] else [(voice, join_space texts)]),
                current_speaker = Some sp, current_text = []\<rparr>"
  using assms by (simp add: flush_def Let_def)

lemma cue_line_initial:
  assumes "detect_speaker (str_strip c) = Some (sp2, d2)"
  shows "parse_line vm c initial_state =
           Inr \<lparr>segments = [], current_speaker = Some sp2,
                current_text = (if d2 \<noteq> [] then [d2] else [])\<rparr>"
proof -
  from assms have "str_strip c \<noteq> []" using detect_speaker_Nil by auto
  with assms show ?thesis
    by (simp add: parse_line_def Let_def flush_def initial_state_def)
qed

lemma cue_line_after_block:
  assumes "detect_speaker (str_strip c) = Some (sp2, d2)"
    and "sp \<noteq> []" "get_voice_for_speaker sp vm = Inr voice"
  shows "parse_line vm c \<lparr>segments = [], current_speaker = Some sp, current_text = texts\<rparr> =
           Inr \<lparr>segments = (if texts = [] then [] else [(voice, join_space texts)]),
                current_speaker = Some sp2,
                current_text = (if d2 \<noteq> [] then [d2] else [])\<rparr>"
proof -
  from assms(1) have "str_strip c \<noteq> []" using detect_speaker_Nil by auto
  with assms(1) flush_block [OF assms(2,3), of texts] show ?thesis
    by (simp add: parse_line_def Let_def)
qed

text \<open>
  C6. The claim that a blank line bounds a segment fails: the blank line between
  \<open>JOHN: hi\<close> and \<open>there\<close> is skipped and both lines are joined in one segment.
\<close>

theorem blank_line_joins:
  "parse_script (''JOHN: hi'' @ [newline] @ [newline] @ ''there'') None
     = Inr [(''am_adam'', ''hi there'')]"
  by code_simp

text \<open>
  C6, amended. Take the lines of a script up to the first line that opens a speaker
  (the lines before it are blank or scene directions), then the lines \<open>body\<close> that are
  not speaker cues, then \<open>rest\<close>, which is empty or starts with a speaker cue. The
  first segment has as text the opening line's buffered text followed by every
  non-blank line of \<open>body\<close>, stripped and joined by spaces: blank lines are skipped and
  do not end the segment, only the next cue or the end of the input does. No segment
  is emitted when there is no text. The segments that follow are those of \<open>rest\<close>.
\<close>

theorem segment_until_next_cue:
  assumes "\<forall>l \<in> set pre. line_opens l = None"
    and "line_opens opener = Some (speaker, buf)"
    and "\<forall>l \<in> set body. detect_speaker (str_strip l) = None"
    and "rest = [] \<or> detect_speaker (str_strip (hd rest)) \<noteq> None"
    and "texts = buf @ filter (\<lambda>t. t \<noteq> []) (map str_strip body)"
  shows "\<exists>voice segs.
           get_voice_for_speaker speaker vm = Inr voice
           \<and> parse_lines rest vm = Inr segs
           \<and> parse_lines (pre @ opener # body @ rest) vm =
               Inr ((if texts = [] then [] else [(voice, join_space texts)]) @ segs)"
proof -
  let ?a = "\<lparr>segments = [], current_speaker = Some speaker, current_text = texts\<rparr>"
  note op = opening_line [OF assms(2)]
  from get_voice_total [OF op(3), of vm] obtain voice where
    voice: "get_voice_for_speaker speaker vm = Inr voice" by blast
  let ?block = "if texts = [] then [] else [(voice, join_space texts)]"
  have "parse_loop vm pre initial_state = Inr initial_state"
    using assms(1) by (intro skipped_lines) (simp_all add: initial_state_def)
  moreover have "parse_loop vm body
        \<lparr>segments = [], current_speaker = Some speaker, current_text = buf\<rparr> = Inr ?a"
    using continuation_lines [OF assms(3), of _ vm] op(2) assms(5)
    by (simp add: speaker_set_def)
  ultimately have a: "parse_loop vm (pre @ opener # body) initial_state = Inr ?a"
    using op(1) by (simp add: parse_loop_append)
  then have whole: "parse_loop vm (pre @ opener # body @ rest) initial_state
                      = parse_loop vm rest ?a"
    using parse_loop_append [of vm "pre @ opener # body" rest initial_state] by simp
  obtain segs where segs: "parse_lines rest vm = Inr segs"
    using parse_lines_ok [of rest vm] by blast
  show ?thesis
  proof (cases rest)
    case Nil
    with segs have "segs = []"
      by (simp add: parse_lines_def flush_def initial_state_def)
    moreover have "parse_lines (pre @ opener # body @ rest) vm = Inr ?block"
      using whole Nil flush_block [OF op(2) voice, of texts]
      by (simp add: parse_lines_def)
    ultimately show ?thesis using voice segs by auto
  next
    case (Cons c r)
    with assms(4) obtain sp2 d2 where cue: "detect_speaker (str_strip c) = Some (sp2, d2)"
      by auto
    let ?c = "\<lparr>segments = [], current_speaker = Some sp2,
               current_text = (if d2 \<noteq> [] then [d2] else [])\<rparr>"
    have after: "parse_line vm c ?a = Inr (?c\<lparr>segments := ?block @ segments ?c\<rparr>)"
      using cue_line_after_block [OF cue op(2) voice, of texts] by simp
    from segs Cons cue_line_initial [OF cue, of vm] obtain st where
      st: "parse_loop vm r ?c = Inr st"
      by (auto simp: parse_lines_def split: sum.splits)
    with segs Cons cue_line_initial [OF cue, of vm] obtain st' where
      st': "flush vm st = Inr st'" "segs = segments st'"
      by (auto simp: parse_lines_def split: sum.splits)
    have "parse_loop vm rest ?a = Inr (st\<lparr>segments := ?block @ segments st\<rparr>)"
      unfolding Cons using after st parse_loop_prefix [of vm r ?block ?c] by simp
    then have "parse_lines (pre @ opener # body @ rest) vm = Inr (?block @ segs)"
      using whole st' flush_prefix [of vm ?block st] by (simp add: parse_lines_def)
    with voice segs show ?thesis by blast
  qed
qed

theorem segment_until_next_cue_witness:
  "list_all (\<lambda>l. line_opens l = None) [''FADE IN'', ''(A kitchen)'']
   \<and> line_opens ''JOHN: hi'' = Some (''JOHN'', [''hi''])
   \<and> list_all (\<lambda>l. detect_speaker (str_strip l) = None) ['''', ''there'']
   \<and> detect_speaker (str_strip (hd [''SARAH'', ''yes''])) \<noteq> None
   \<and> parse_lines [''FADE IN'', ''(A kitchen)'', ''JOHN: hi'', '''', ''there'', ''SARAH'', ''yes''] []
       = Inr [(''am_adam'', ''hi there''), (''af_bella'', ''yes'')]"
proof -
  have h1: "list_all (\<lambda>l. line_opens l = None) [''FADE IN'', ''(A kitchen)'']"
    by code_simp
  have h2: "line_opens ''JOHN: hi'' = Some (''JOHN'', [''hi''])"
    by code_simp
  have h3: "list_all (\<lambda>l. detect_speaker (str_strip l) = None) ['''', ''there'']"
    by code_simp
  have h4: "detect_speaker (str_strip (hd [''SARAH'', ''yes''])) \<noteq> None"
    by code_simp
  have t: "[''hi'', ''there''] = [''hi''] @ filter (\<lambda>t. t \<noteq> []) (map str_strip ['''', ''there''])"
    by code_simp
  have v: "get_voice_for_speaker ''JOHN'' [] = Inr ''am_adam''"
    by code_simp
  have r: "parse_lines [''SARAH'', ''yes''] [] = Inr [(''af_bella'', ''yes'')]"
    by code_simp
  from segment_until_next_cue
    [of "[''FADE IN'', ''(A kitchen)'']" "''JOHN: hi''" "''JOHN''" "[''hi'']" "['''', ''there'']"
        "[''SARAH'', ''yes'']" "[''hi'', ''there'']" "[]"]
    h1 h2 h3 h4 t
  obtain voice segs where
    "get_voice_for_speaker ''JOHN'' [] = Inr voice"
    "parse_lines [''SARAH'', ''yes''] [] = Inr segs"
    "parse_lines ([''FADE IN'', ''(A kitchen)''] @ ''JOHN: hi'' # ['''', ''there''] @ [''SARAH'', ''yes'']) []
       = Inr ((if [''hi'', ''there''] = [] then [] else [(voice, join_space [''hi'', ''there''])]) @ segs)"
    by (auto simp: list_all_iff)
  with v r have "parse_lines [''FADE IN'', ''(A kitchen)'', ''JOHN: hi'', '''', ''there'', ''SARAH'', ''yes''] []
       = Inr [(''am_adam'', ''hi there''), (''af_bella'', ''yes'')]"
    by simp
  with h1 h2 h3 h4 show ?thesis by blast
qed

subsection \<open>Detected characters\<close>

lemma fst_counter_incr:
  "map fst (counter_incr k xs) = (if k \<in> set (map fst xs) then map fst xs else map fst xs @ [k])"
  by (induction xs) force+

lemma upper_chars_fixed: "list_all (\<lambda>c. to_upper c = c) upper_chars"
  by code_simp

lemma is_AZ_upper: "is_AZ c \<Longrightarrow> to_upper c = c"
  using upper_chars_fixed by (simp add: is_AZ_def list_all_iff)

lemma count_line_keys:
  assumes "distinct (map fst counts)" "\<forall>k \<in> set (map fst counts). has_token k"
  shows "distinct (map fst (count_line counts line))
         \<and> (\<forall>k \<in> set (map fst (count_line counts line)). has_token k)"
proof (cases "detect_speaker line")
  case None
  with assms show ?thesis by (simp add: count_line_def)
next
  case (Some sd)
  obtain sp d where sd: "sd = (sp, d)" by (cases sd)
  from Some sd detect_speaker_capital obtain c cs where c: "is_AZ c" "sp = c # cs" by blast
  then have "str_upper sp = c # str_upper cs" by (simp add: str_upper_def is_AZ_upper)
  with c(1) have tok: "has_token (str_upper sp)" by (simp add: capital_has_token)
  have "set (map fst (counter_incr (str_upper sp) counts))
          \<subseteq> insert (str_upper sp) (set (map fst counts))"
    unfolding fst_counter_incr by auto
  then have "\<forall>k \<in> set (map fst (counter_incr (str_upper sp) counts)). has_token k"
    using assms(2) tok by blast
  moreover have "distinct (map fst (counter_incr (str_upper sp) counts))"
    unfolding fst_counter_incr using assms(1) by auto
  ultimately show ?thesis using Some sd assms by (simp add: count_line_def Let_def)
qed

lemma foldl_count_line_keys:
  "distinct (map fst counts) \<Longrightarrow> \<forall>k \<in> set (map fst counts). has_token k \<Longrightarrow>
   distinct (map fst (foldl count_line counts ls))
   \<and> (\<forall>k \<in> set (map fst (foldl count_line counts ls)). has_token k)"
proof (induction ls arbitrary: counts)
  case Nil
  then show ?case by simp
next
  case (Cons l ls)
  from count_line_keys [OF Cons.prems, of l] Cons.IH [of "count_line counts l"]
  show ?case by simp
qed

lemma detect_characters_keys:
  "distinct (map fst (detect_characters script_text))"
  "\<forall>k \<in> set (map fst (detect_characters script_text)). has_token k"
  using foldl_count_line_keys [of "[]" "split_lines script_text"]
  by (simp_all add: detect_characters_def)

subsection \<open>Suggested voices\<close>

lemma dict_set_fresh: "k \<notin> set (map fst d) \<Longrightarrow> dict_set k v d = d @ [(k, v)]"
  by (induction d) auto

lemma male_names_no_narr: "list_all (\<lambda>t. \<not> str_contains ''narr'' t) male_names"
  by code_simp

lemma female_names_no_narr: "list_all (\<lambda>t. \<not> str_contains ''narr'' t) female_names"
  by code_simp

lemma female_names_not_male: "list_all (\<lambda>t. t \<notin> set male_names) female_names"
  by code_simp

lemma male_not_narrator: "male_named c \<Longrightarrow> \<not> narrator_named c"
  using male_names_no_narr by (simp add: male_named_def narrator_named_def list_all_iff)

lemma female_not_narrator: "female_named c \<Longrightarrow> \<not> narrator_named c"
  using female_names_no_narr by (simp add: female_named_def narrator_named_def list_all_iff)

lemma female_not_male: "female_named c \<Longrightarrow> \<not> male_named c"
  using female_names_not_male by (simp add: female_named_def male_named_def list_all_iff)

lemma suggest_loop_snoc:
  "suggest_loop (ks @ [k]) st =
     (case suggest_loop ks st of Inl e \<Rightarrow> Inl e | Inr st' \<Rightarrow> suggest_step st' k)"
  by (induction ks arbitrary: st) (auto split: sum.splits)

text \<open>One step of the loop, on a character that has a first token and no entry yet.\<close>

lemma suggest_step_fresh:
  assumes "has_token k" "k \<notin> set (map fst (suggestions st))"
  shows "suggest_step st k =
     Inr \<lparr>suggestions = suggestions st @
            [(k, if narrator_named k then ''af_heart''
                 else if male_named k
                   then available_voices_male ! (male_voice_idx st mod length available_voices_male)
                 else if female_named k
                   then available_voices_female
                          ! (female_voice_idx st mod length available_voices_female)
                 else if even (length (suggestions st)) then ''am_adam''
                 else ''af_bella'')],
          male_voice_idx = male_voice_idx st + (if male_named k then 1 else 0),
          female_voice_idx = female_voice_idx st + (if female_named k then 1 else 0)\<rparr>"
proof -
  from assms(1) obtain t ts where ts: "str_split (str_lower k) = t # ts"
    unfolding has_token_def by (cases "str_split (str_lower k)") auto
  then have ft: "first_token k = t" by (simp add: first_token_def)
  consider (narr) "narrator_named k"
    | (male) "\<not> narrator_named k" "male_named k"
    | (female) "\<not> narrator_named k" "\<not> male_named k" "female_named k"
    | (other) "\<not> narrator_named k" "\<not> male_named k" "\<not> female_named k"
    by blast
  then show ?thesis
  proof cases
    case narr
    then have "\<not> male_named k" "\<not> female_named k"
      using male_not_narrator female_not_narrator by blast+
    with narr ts ft show ?thesis
      by (simp add: suggest_step_def narrator_named_def dict_set_fresh [OF assms(2)])
  next
    case male
    then have "\<not> female_named k" using female_not_male by blast
    with male ts ft show ?thesis
      by (simp add: suggest_step_def narrator_named_def male_named_def Let_def
            dict_set_fresh [OF assms(2)])
  next
    case female
    with ts ft show ?thesis
      by (simp add: suggest_step_def narrator_named_def male_named_def female_named_def Let_def
            dict_set_fresh [OF assms(2)])
  next
    case other
    with ts ft show ?thesis
      by (simp add: suggest_step_def narrator_named_def male_named_def female_named_def Let_def
            dict_set_fresh [OF assms(2)] even_iff_mod_2_eq_zero)
  qed
qed

lemma suggested_voice_butlast:
  "j < length ks \<Longrightarrow> suggested_voice (ks @ [k]) j = suggested_voice ks j"
proof -
  assume j: "j < length ks"
  then have "take j (ks @ [k]) = take j ks" "(ks @ [k]) ! j = ks ! j"
    by (simp_all add: nth_append)
  then show ?thesis by (simp only: suggested_voice_def)
qed

lemma suggested_voice_last:
  "suggested_voice (ks @ [k]) (length ks) =
     (if narrator_named k then ''af_heart''
      else if male_named k
        then available_voices_male
               ! (length (filter male_named ks) mod length available_voices_male)
      else if female_named k
        then available_voices_female
               ! (length (filter female_named ks) mod length available_voices_female)
      else if even (length ks) then ''am_adam''
      else ''af_bella'')"
  by (simp add: suggested_voice_def)

lemma suggest_loop_voices:
  "distinct ks \<Longrightarrow> \<forall>k \<in> set ks. has_token k \<Longrightarrow>
   \<exists>st. suggest_loop ks \<lparr>suggestions = [], male_voice_idx = 0, female_voice_idx = 0\<rparr> = Inr st
        \<and> suggestions st = map (\<lambda>j. (ks ! j, suggested_voice ks j)) [0..<length ks]
        \<and> male_voice_idx st = length (filter male_named ks)
        \<and> female_voice_idx st = length (filter female_named ks)"
proof (induction ks rule: rev_induct)
  case Nil
  then show ?case by simp
next
  case (snoc k ks)
  from snoc obtain st where
    st: "suggest_loop ks \<lparr>suggestions = [], male_voice_idx = 0, female_voice_idx = 0\<rparr> = Inr st"
      "suggestions st = map (\<lambda>j. (ks ! j, suggested_voice ks j)) [0..<length ks]"
      "male_voice_idx st = length (filter male_named ks)"
      "female_voice_idx st = length (filter female_named ks)"
    by auto
  have keys: "map fst (suggestions st) = ks"
    unfolding st(2) by (simp add: map_nth comp_def)
  have len: "length (suggestions st) = length ks"
    unfolding st(2) by simp
  from snoc.prems keys have fresh: "k \<notin> set (map fst (suggestions st))" by simp
  from snoc.prems have tok: "has_token k" by simp
  have old: "map (\<lambda>j. ((ks @ [k]) ! j, suggested_voice (ks @ [k]) j)) [0..<length ks]
             = suggestions st"
    unfolding st(2) by (simp add: nth_append suggested_voice_butlast)
  have "suggest_loop (ks @ [k]) \<lparr>suggestions = [], male_voice_idx = 0, female_voice_idx = 0\<rparr>
          = suggest_step st k"
    by (simp add: suggest_loop_snoc st(1))
  then show ?case
    unfolding suggest_step_fresh [OF tok fresh]
    by (simp add: old suggested_voice_last st(3,4) len)
qed

text \<open>
  The whole result of \<open>suggest_voice_mappings\<close>: it always returns, with one entry
  for each detected character in first-appearance order.
\<close>

lemma suggest_voice_mappings_eq:
  "suggest_voice_mappings script_text =
     Inr (map (\<lambda>j. (map fst (detect_characters script_text) ! j,
                     suggested_voice (map fst (detect_characters script_text)) j))
            [0..<length (detect_characters script_text)])"
proof -
  let ?ks = "map fst (detect_characters script_text)"
  from suggest_loop_voices [OF detect_characters_keys, of script_text] obtain st where
    "suggest_loop ?ks \<lparr>suggestions = [], male_voice_idx = 0, female_voice_idx = 0\<rparr> = Inr st"
    "suggestions st = map (\<lambda>j. (?ks ! j, suggested_voice ?ks j)) [0..<length ?ks]"
    by blast
  then show ?thesis by (simp add: suggest_voice_mappings_def)
qed

text \<open>
  C9. The speakers without a gender signal do not alternate between the two pools:
  \<open>ZOG\<close> and \<open>ZIG\<close>, the only two such speakers of this script, both get the male
  voice \<open>am_adam\<close>. The fallback branch, commented \<open>Default to alternating\<close>, tests
  \<open>len(suggestions) % 2\<close>, which also counts \<open>JOHN\<close> between them, where the male
  and female branches keep a counter of their own.
\<close>

theorem unknown_speakers_not_alternating:
  "suggest_voice_mappings (''ZOG: a'' @ [newline] @ ''JOHN: b'' @ [newline] @ ''ZIG: c'')
     = Inr [(''ZOG'', ''am_adam''), (''JOHN'', ''am_adam''), (''ZIG'', ''am_adam'')]"
  by code_simp

end
